theory Spec2Isabelle
  imports Main "HOL-Library.Word"
begin

unbundle bit_operations_syntax

section \<open>Machine types\<close>

text \<open>
  The program is C for an LP64 platform: \<open>size_t\<close> and \<open>uint64_t\<close> are 64-bit unsigned
  words whose arithmetic wraps around, \<open>int\<close> is a 32-bit signed word, and \<open>char\<close> is a
  signed 8-bit value. A C string is modelled by its content, the characters before the
  terminating NUL, so \<open>strlen\<close> is \<open>length\<close>, \<open>strcmp(a, b) == 0\<close> and the macro
  \<open>streq(a, b)\<close> are \<open>a = b\<close>, and \<open>strdup\<close> is the identity. Allocation is taken
  to succeed (the program never recovers from a failed \<open>malloc\<close>, \<open>calloc\<close> or \<open>strdup\<close>).
\<close>

type_synonym uint64_t = "64 word"
type_synonym size_t = "64 word"
type_synonym c_int = "32 word"
type_synonym byte = "8 word"

section \<open>hash.c: the bucket hash\<close>

definition FNV_OFFSET_BASIS :: uint64_t where
  "FNV_OFFSET_BASIS = 0xcbf29ce484222325"

definition FNV_PRIME :: uint64_t where
  "FNV_PRIME = 0x100000001b3"

text \<open>
  \<open>hash = hash ^ byte\<close> with \<open>char byte\<close>: the character is promoted to \<open>int\<close> and then
  converted to \<open>uint64_t\<close>, which sign-extends it.
\<close>

definition char_to_uint64 :: "char \<Rightarrow> uint64_t" where
  "char_to_uint64 c = scast (of_char c :: byte)"

definition hash_from_data :: "string \<Rightarrow> nat \<Rightarrow> uint64_t" where
  "hash_from_data data n =
     foldl (\<lambda>hash byte. (hash XOR char_to_uint64 byte) * FNV_PRIME) FNV_OFFSET_BASIS (take n data)"

section \<open>pair.c: key/value pairs\<close>

text \<open>
  Modelled from the spec: the declarations of \<open>Value\<close>, \<open>Type\<close> and \<open>Pair\<close> are in
  \<open>pair.h\<close>, which is not among the sources. The spec gives \<open>Value\<close> as a tagged variant
  over a text and a signed 64-bit number. The C functions pass the union and its tag
  (\<open>STRING\<close> or \<open>NUMBER\<close>) as the two arguments \<open>value\<close> and \<open>type\<close> and store them in
  the two fields \<open>value\<close> and \<open>type\<close> of a \<open>Pair\<close>; here the constructor is the tag. The field
  \<open>next\<close> of a \<open>Pair\<close> is the rest of the list the pair heads: a chain is a \<open>Pair list\<close>.
\<close>

datatype Type = STRING | NUMBER

datatype Value = Text string | Number "64 word"

fun type_of :: "Value \<Rightarrow> Type" where
  "type_of (Text s) = STRING"
| "type_of (Number n) = NUMBER"

record Pair =
  key :: string
  val :: Value

text \<open>\<open>pair_create(key, value, next, type)\<close>: the new pair, linked in front of \<open>next\<close>.\<close>

definition pair_create :: "string \<Rightarrow> Value \<Rightarrow> Pair list \<Rightarrow> Pair list" where
  "pair_create k v nxt = \<lparr>key = k, val = v\<rparr> # nxt"

text \<open>\<open>pair_update(p, value, type)\<close>: the key and the link stay, value and tag are replaced.\<close>

definition pair_update :: "Pair \<Rightarrow> Value \<Rightarrow> Pair" where
  "pair_update p v = p\<lparr>val := v\<rparr>"

text \<open>Decimal digits of a natural number, and \<open>%ld\<close> of a signed 64-bit number.\<close>

definition digit :: "nat \<Rightarrow> char" where
  "digit d = ''0123456789abcdef'' ! d"

function decimal :: "nat \<Rightarrow> string" where
  "decimal n = (if n < 10 then [digit n] else decimal (n div 10) @ [digit (n mod 10)])"
  by pat_completeness auto
termination
  by (relation "measure id") auto

declare decimal.simps [simp del]

text \<open>The number that a string of decimal digits denotes.\<close>

definition decimal_value :: "string \<Rightarrow> nat" where
  "decimal_value s = foldl (\<lambda>a c. 10 * a + (of_char c - 48)) 0 s"

definition printf_ld :: "64 word \<Rightarrow> string" where
  "printf_ld n = (if sint n < 0 then CHR ''-'' # decimal (nat (- sint n)) else decimal (nat (sint n)))"

definition TAB :: char where
  "TAB = CHR 0x09"

definition NEWLINE :: char where
  "NEWLINE = CHR 0x0A"

text \<open>\<open>pair_format(p, stream)\<close>: the characters written to the stream.\<close>

definition pair_format :: "Pair \<Rightarrow> string" where
  "pair_format p =
     (case val p of
        Text s \<Rightarrow> key p @ [TAB] @ s @ [NEWLINE]
      | Number n \<Rightarrow> key p @ [TAB] @ printf_ld n @ [NEWLINE])"

section \<open>table.c: the separate-chaining hash table\<close>

text \<open>
  The bucket array holds \<open>capacity\<close> sentinel pairs; only their \<open>next\<close> fields are used, so
  the array is the list of the chains. \<open>size\<close> is a \<open>size_t\<close>.
\<close>

record Table =
  buckets :: "Pair list list"
  capacity :: size_t
  tsize :: size_t

text \<open>
  \<open>DEFAULT_CAPACITY\<close> is a macro of \<open>table.h\<close>, which is not among the sources: it is the
  first parameter of \<open>table_create\<close>. \<open>calloc\<close> gives the bucket array with every
  \<open>next\<close> field \<open>NULL\<close>: \<open>capacity\<close> empty chains.
\<close>

definition table_create :: "size_t \<Rightarrow> size_t \<Rightarrow> Table" where
  "table_create DEFAULT_CAPACITY cap =
     (let c = (if cap = 0 then DEFAULT_CAPACITY else cap)
      in \<lparr>buckets = replicate (unat c) [], capacity = c, tsize = 0\<rparr>)"

text \<open>
  \<open>hash_from_data(key, strlen(key)) % t->capacity\<close>, and the read of \<open>t->buckets[bucket]\<close>.
  A capacity of zero is a division by zero and an index outside the array is an invalid
  read: both are undefined behaviour in C and \<open>None\<close> here.
\<close>

definition bucket_index :: "Table \<Rightarrow> string \<Rightarrow> nat option" where
  "bucket_index t k =
     (if capacity t = 0 then None
      else let bucket = unat (hash_from_data k (length k) mod capacity t)
           in if bucket < length (buckets t) then Some bucket else None)"

text \<open>The loop of \<open>table_insert\<close>: \<open>None\<close> when it ends without a match.\<close>

fun insert_loop :: "Pair list \<Rightarrow> string \<Rightarrow> Value \<Rightarrow> Pair list option" where
  "insert_loop [] k v = None"
| "insert_loop (cur # nxt) k v =
     (if key cur = k then Some (pair_update cur v # nxt)
      else map_option ((#) cur) (insert_loop nxt k v))"

definition table_insert :: "Table \<Rightarrow> string \<Rightarrow> Value \<Rightarrow> Table option" where
  "table_insert t k v =
     (case bucket_index t k of
        None \<Rightarrow> None
      | Some bucket \<Rightarrow>
          (case insert_loop (buckets t ! bucket) k v of
             Some chain \<Rightarrow> Some (t\<lparr>buckets := (buckets t)[bucket := chain]\<rparr>)
           | None \<Rightarrow>
               Some (t\<lparr>buckets := (buckets t)[bucket := pair_create k v (buckets t ! bucket)],
                       tsize := tsize t + 1\<rparr>)))"

text \<open>The loop of \<open>table_search\<close>: the value of the first pair with the key.\<close>

fun search_loop :: "Pair list \<Rightarrow> string \<Rightarrow> Value option" where
  "search_loop [] k = None"
| "search_loop (cur # nxt) k = (if key cur = k then Some (val cur) else search_loop nxt k)"

text \<open>\<open>table_search\<close>: \<open>Some None\<close> is the C result \<open>NULL\<close>.\<close>

definition table_search :: "Table \<Rightarrow> string \<Rightarrow> Value option option" where
  "table_search t k =
     (case bucket_index t k of
        None \<Rightarrow> None
      | Some bucket \<Rightarrow> Some (search_loop (buckets t ! bucket) k))"

text \<open>The loop of \<open>table_remove\<close>: the chain without the first pair with the key.\<close>

fun remove_loop :: "Pair list \<Rightarrow> string \<Rightarrow> Pair list option" where
  "remove_loop [] k = None"
| "remove_loop (cur # nxt) k =
     (if key cur = k then Some nxt else map_option ((#) cur) (remove_loop nxt k))"

definition table_remove :: "Table \<Rightarrow> string \<Rightarrow> (bool \<times> Table) option" where
  "table_remove t k =
     (case bucket_index t k of
        None \<Rightarrow> None
      | Some bucket \<Rightarrow>
          (case remove_loop (buckets t ! bucket) k of
             Some chain \<Rightarrow> Some (True, t\<lparr>buckets := (buckets t)[bucket := chain], tsize := tsize t - 1\<rparr>)
           | None \<Rightarrow> Some (False, t)))"

text \<open>
  \<open>table_format(t, stream)\<close>: the characters written to the stream; \<open>t == NULL\<close> is the
  argument \<open>None\<close>. The outer loop reads \<open>t->buckets[i]\<close> for every \<open>i < t->capacity\<close>.
\<close>

definition format_chain :: "Pair list \<Rightarrow> string" where
  "format_chain chain = concat (map pair_format chain)"

definition table_format :: "Table option \<Rightarrow> string option" where
  "table_format t =
     (case t of
        None \<Rightarrow> Some []
      | Some t \<Rightarrow>
          (if unat (capacity t) \<le> length (buckets t)
           then Some (concat (map (\<lambda>i. format_chain (buckets t ! i)) [0..<unat (capacity t)]))
           else None))"

section \<open>hash.c: the file digest\<close>

text \<open>
  What the program sees of the file system and of the libraries it calls, as it is during
  one run:
  \<^item> \<open>stat\<close>: \<open>None\<close> when \<open>stat(path, &s) < 0\<close>, else \<open>S_ISDIR(s.st_mode)\<close>;
  \<^item> \<open>opendir\<close>: \<open>None\<close> when the directory cannot be opened, else the names that
    \<open>readdir\<close> yields, in its order, \<open>.\<close> and \<open>..\<close> among them;
  \<^item> \<open>realpath\<close>: \<open>None\<close> is the result \<open>NULL\<close>;
  \<^item> \<open>fopen\<close>: \<open>None\<close> when \<open>fopen(path, "r")\<close> is \<open>NULL\<close>, else the bytes that
    \<open>fread\<close> delivers until it returns 0;
  \<^item> \<open>strerror\<close>: the text of \<open>strerror(errno)\<close> after the calls on that path;
  \<^item> the MD5 functions of the digest library, on contexts of type \<open>'c\<close>, \<open>MD5_Final\<close>
    giving the bytes of the array \<open>out\<close>;
  \<^item> the constants \<open>BUFSIZ\<close> and \<open>PATH_MAX\<close> of the C library.
\<close>

record 'c System =
  stat :: "string \<Rightarrow> bool option"
  opendir :: "string \<Rightarrow> string list option"
  realpath :: "string \<Rightarrow> string option"
  fopen :: "string \<Rightarrow> byte list option"
  strerror :: "string \<Rightarrow> string"
  MD5_Init :: 'c
  MD5_Update :: "'c \<Rightarrow> byte list \<Rightarrow> 'c"
  MD5_Final :: "'c \<Rightarrow> byte list"
  BUFSIZ :: nat
  PATH_MAX :: nat

definition MD5_DIGEST_LENGTH :: nat where
  "MD5_DIGEST_LENGTH = 16"

text \<open>\<open>sprintf(..., "%02x", out[i])\<close> for an \<open>unsigned char\<close>.\<close>

definition sprintf_02x :: "byte \<Rightarrow> string" where
  "sprintf_02x b = [digit (unat b div 16), digit (unat b mod 16)]"

text \<open>The \<open>fread\<close> loop: chunks of at most \<open>BUFSIZ\<close> bytes, until a read returns 0.\<close>

function fread_loop :: "('c \<Rightarrow> byte list \<Rightarrow> 'c) \<Rightarrow> nat \<Rightarrow> 'c \<Rightarrow> byte list \<Rightarrow> 'c" where
  "fread_loop update bufsiz c file =
     (let bytes = min bufsiz (length file)
      in if bytes > 0 then fread_loop update bufsiz (update c (take bytes file)) (drop bytes file)
         else c)"
  by pat_completeness auto
termination
  by (relation "measure (\<lambda>(update, bufsiz, c, file). length file)") auto

declare fread_loop.simps [simp del]

text \<open>\<open>hash_from_file(path, hexdigest)\<close>: \<open>None\<close> is \<open>false\<close>, \<open>Some hexdigest\<close> is \<open>true\<close>.\<close>

definition hash_from_file :: "'c System \<Rightarrow> string \<Rightarrow> string option" where
  "hash_from_file sys path =
     (case fopen sys path of
        None \<Rightarrow> None
      | Some file \<Rightarrow>
          (let c = fread_loop (MD5_Update sys) (BUFSIZ sys) (MD5_Init sys) file;
               out = MD5_Final sys c
           in Some (concat (map sprintf_02x (take MD5_DIGEST_LENGTH out)))))"

section \<open>duplicates.c: the scanner\<close>

record Options =
  count :: bool
  quiet :: bool

datatype Output = Stdout string | Stderr string

definition is_directory :: "'c System \<Rightarrow> string \<Rightarrow> bool" where
  "is_directory sys path = (case stat sys path of None \<Rightarrow> False | Some isdir \<Rightarrow> isdir)"

text \<open>
  \<open>check_file(path, checksums, options)\<close>: the returned number, the table afterwards and
  what was printed. \<open>None\<close> is undefined behaviour: a table operation that is undefined,
  or \<open>v->string\<close> read from a value that holds a number.
\<close>

definition check_file ::
  "'c System \<Rightarrow> string \<Rightarrow> Table \<Rightarrow> Options \<Rightarrow> (size_t \<times> Table \<times> Output list) option" where
  "check_file sys path checksums options =
     (case hash_from_file sys path of
        None \<Rightarrow> Some (0, checksums, [])
      | Some hex \<Rightarrow>
          (case table_search checksums hex of
             None \<Rightarrow> None
           | Some v \<Rightarrow>
               if v \<noteq> None \<and> \<not> count options \<and> \<not> quiet options then
                 (case v of
                    Some (Text s) \<Rightarrow>
                      Some (1, checksums, [Stdout (path @ '' is a duplicate of '' @ s @ [NEWLINE])])
                  | _ \<Rightarrow> None)
               else if v \<noteq> None \<and> (quiet options \<or> count options) then Some (1, checksums, [])
               else if v = None then
                 (case table_insert checksums hex (Text path) of
                    None \<Rightarrow> None
                  | Some t \<Rightarrow> Some (0, t, []))
               else Some (0, checksums, [])))"

text \<open>
  \<open>check_directory\<close> recurses as deep as the directories nest, which a file system with a
  cycle makes endless: the model takes fuel, one unit for each level.
\<close>

datatype fault = Undefined_behaviour | Out_of_fuel

text \<open>
  \<open>sprintf(currPath, "%s/%s", dir, name)\<close> into \<open>char currPath[PATH_MAX]\<close>: undefined
  when \<open>dir\<close> is \<open>NULL\<close> or when the text and its NUL do not fit.
\<close>

definition sprintf_path :: "nat \<Rightarrow> string option \<Rightarrow> string \<Rightarrow> string option" where
  "sprintf_path path_max dir name =
     (case dir of
        None \<Rightarrow> None
      | Some d \<Rightarrow> (let p = d @ ''/'' @ name in if length p < path_max then Some p else None))"

text \<open>\<open>count += n\<close> with \<open>int count\<close> and \<open>n\<close> a \<open>size_t\<close>.\<close>

definition add_count :: "c_int \<Rightarrow> size_t \<Rightarrow> c_int" where
  "add_count c n = ucast ((scast c :: size_t) + n)"

text \<open>
  The path of an entry, as the loop composes it: \<open>root/d_name\<close>, overwritten by
  \<open>path/d_name\<close> when \<open>is_directory(curr->d_name)\<close> holds for the bare name; \<open>path\<close> is
  the result of \<open>realpath(root, pathBuf)\<close>.
\<close>

definition compose_path :: "'c System \<Rightarrow> string \<Rightarrow> string option \<Rightarrow> string \<Rightarrow> string option" where
  "compose_path sys root path d_name =
     (case sprintf_path (PATH_MAX sys) (Some root) d_name of
        None \<Rightarrow> None
      | Some rootPath \<Rightarrow>
          if is_directory sys d_name then sprintf_path (PATH_MAX sys) path d_name
          else Some rootPath)"

text \<open>
  The \<open>readdir\<close> loop of \<open>check_directory\<close> over the names still to come; \<open>recurse\<close> is
  the recursive call.
\<close>

fun readdir_loop ::
  "(string \<Rightarrow> Table \<Rightarrow> fault + (size_t \<times> Table \<times> Output list)) \<Rightarrow> 'c System \<Rightarrow> string \<Rightarrow>
   string option \<Rightarrow> Options \<Rightarrow> string list \<Rightarrow> c_int \<Rightarrow> Table \<Rightarrow>
   fault + (c_int \<times> Table \<times> Output list)" where
  "readdir_loop recurse sys root path options [] cnt checksums = Inr (cnt, checksums, [])"
| "readdir_loop recurse sys root path options (d_name # names) cnt checksums =
     (if d_name = ''.'' \<or> d_name = ''..''
      then readdir_loop recurse sys root path options names cnt checksums
      else
        (case compose_path sys root path d_name of
           None \<Rightarrow> Inl Undefined_behaviour
         | Some currPath \<Rightarrow>
             (case (if is_directory sys currPath then recurse currPath checksums
                    else (case check_file sys currPath checksums options of
                            None \<Rightarrow> Inl Undefined_behaviour
                          | Some r \<Rightarrow> Inr r)) of
                Inl f \<Rightarrow> Inl f
              | Inr (n, checksums', out) \<Rightarrow>
                  (case readdir_loop recurse sys root path options names
                          (add_count cnt n) checksums' of
                     Inl f \<Rightarrow> Inl f
                   | Inr (c, t, out') \<Rightarrow> Inr (c, t, out @ out')))))"

fun check_directory ::
  "nat \<Rightarrow> 'c System \<Rightarrow> string \<Rightarrow> Table \<Rightarrow> Options \<Rightarrow> fault + (size_t \<times> Table \<times> Output list)" where
  "check_directory 0 sys root checksums options = Inl Out_of_fuel"
| "check_directory (Suc fuel) sys root checksums options =
     (case opendir sys root of
        None \<Rightarrow>
          Inr (0, checksums,
               [Stderr (''Unable to open directory on '' @ root @ '': '' @ strerror sys root @ [NEWLINE])])
      | Some names \<Rightarrow>
          (case readdir_loop (\<lambda>p t. check_directory fuel sys p t options) sys root
                  (realpath sys root) options names 0 checksums of
             Inl f \<Rightarrow> Inl f
           | Inr (c, t, out) \<Rightarrow> Inr (scast c, t, out)))"

section \<open>Sequences of table operations\<close>

datatype Op = Insert string Value | Search string | Remove string

datatype Result = Inserted | Found "Value option" | Removed bool

fun table_step :: "Table \<Rightarrow> Op \<Rightarrow> (Result \<times> Table) option" where
  "table_step t (Insert k v) = map_option (\<lambda>t'. (Inserted, t')) (table_insert t k v)"
| "table_step t (Search k) = map_option (\<lambda>r. (Found r, t)) (table_search t k)"
| "table_step t (Remove k) = map_option (\<lambda>(b, t'). (Removed b, t')) (table_remove t k)"

text \<open>The results of the operations, the size after each of them, and the final table.\<close>

fun table_run :: "Table \<Rightarrow> Op list \<Rightarrow> ((Result \<times> size_t) list \<times> Table) option" where
  "table_run t [] = Some ([], t)"
| "table_run t (op # ops) =
     (case table_step t op of
        None \<Rightarrow> None
      | Some (r, t') \<Rightarrow>
          (case table_run t' ops of
             None \<Rightarrow> None
           | Some (rs, t'') \<Rightarrow> Some ((r, tsize t') # rs, t'')))"

section \<open>Properties of a table\<close>

text \<open>The shape \<open>table_create\<close> gives a table: a capacity that is not zero, and that many buckets.\<close>

definition table_wf :: "Table \<Rightarrow> bool" where
  "table_wf t \<longleftrightarrow> capacity t \<noteq> 0 \<and> length (buckets t) = unat (capacity t)"

text \<open>The pairs reachable from the buckets, bucket by bucket.\<close>

definition entries :: "Table \<Rightarrow> Pair list" where
  "entries t = concat (buckets t)"

text \<open>Every pair is in the bucket its key hashes to.\<close>

definition table_placed :: "Table \<Rightarrow> bool" where
  "table_placed t \<longleftrightarrow>
     (\<forall>i \<in> {0..<length (buckets t)}. \<forall>p \<in> set (buckets t ! i).
        i = unat (hash_from_data (key p) (length (key p)) mod capacity t))"

text \<open>
  The invariant of the table: the bucket array has \<open>capacity\<close> chains, every pair is in
  the bucket of its key, no chain holds a key twice, and \<open>size\<close> counts the pairs (as a
  \<open>size_t\<close>).
\<close>

definition table_inv :: "Table \<Rightarrow> bool" where
  "table_inv t \<longleftrightarrow>
     length (buckets t) = unat (capacity t) \<and> table_placed t \<and>
     (\<forall>c \<in> set (buckets t). distinct (map key c)) \<and>
     tsize t = of_nat (length (entries t))"

text \<open>Every stored value is a text, as in the table of checksums of the scanner.\<close>

definition table_of_texts :: "Table \<Rightarrow> bool" where
  "table_of_texts t \<longleftrightarrow> (\<forall>p \<in> set (entries t). type_of (val p) = STRING)"

section \<open>A file system to run the scanner on\<close>

text \<open>
  The program runs in the working directory \<open>/w\<close>, which holds the directories \<open>d\<close> and
  \<open>x\<close>. The directory \<open>d\<close> holds three regular files: \<open>y\<close> and \<open>x\<close>, which both read
  \<open>hello\<close>, and \<open>z\<close>, which the user may not read. \<open>readdir\<close> on \<open>d\<close> yields \<open>.\<close>,
  \<open>..\<close>, \<open>y\<close>, \<open>z\<close>, \<open>x\<close>. The digest library is a parameter.
\<close>

definition hello :: "byte list" where
  "hello = [0x68, 0x65, 0x6C, 0x6C, 0x6F]"

text \<open>
  A stand-in for the digest library in the examples: the context is the list of the bytes
  read, and the digest is its first 16 bytes, padded with zeros.
\<close>

definition zero_padded :: "byte list \<Rightarrow> byte list" where
  "zero_padded c = take 16 (c @ [0, 0, 0, 0, 0, 0, 0, 0, 0, 0, 0, 0, 0, 0, 0, 0])"

definition scenario :: "'c \<Rightarrow> ('c \<Rightarrow> byte list \<Rightarrow> 'c) \<Rightarrow> ('c \<Rightarrow> byte list) \<Rightarrow> 'c System" where
  "scenario init update final =
     \<lparr>stat = (\<lambda>p. if p \<in> {''d'', ''x'', ''/w/d'', ''/w/x''} then Some True
                   else if p \<in> {''d/y'', ''d/z'', ''d/x'', ''/w/d/y'', ''/w/d/z'', ''/w/d/x''}
                   then Some False
                   else None),
      opendir = (\<lambda>p. if p \<in> {''d'', ''/w/d''} then Some [''.'', ''..'', ''y'', ''z'', ''x'']
                      else if p \<in> {''x'', ''/w/x''} then Some [''.'', ''..'']
                      else None),
      realpath = (\<lambda>p. if p \<in> {''d'', ''/w/d''} then Some ''/w/d''
                       else if p \<in> {''x'', ''/w/x''} then Some ''/w/x''
                       else None),
      fopen = (\<lambda>p. if p \<in> {''d/y'', ''d/x'', ''/w/d/y'', ''/w/d/x''} then Some hello else None),
      strerror = (\<lambda>p. ''No such file or directory''),
      MD5_Init = init, MD5_Update = update, MD5_Final = final,
      BUFSIZ = 8192, PATH_MAX = 4096\<rparr>"

section \<open>Basic facts about the table operations\<close>

lemma bucket_index_wf:
  "table_wf t \<Longrightarrow> bucket_index t k = Some (unat (hash_from_data k (length k) mod capacity t))"
  by (simp add: table_wf_def bucket_index_def Let_def unat_mod unat_gt_0)

lemma bucket_index_less: "bucket_index t k = Some b \<Longrightarrow> b < length (buckets t)"
  by (auto simp: bucket_index_def Let_def split: if_splits)

lemma bucket_index_eq:
  "bucket_index t k = Some b \<Longrightarrow> b = unat (hash_from_data k (length k) mod capacity t)"
  by (auto simp: bucket_index_def Let_def split: if_splits)

lemma insert_loop_None: "insert_loop c k v = None \<longleftrightarrow> k \<notin> key ` set c"
  by (induction c) auto

lemma search_loop_None: "search_loop c k = None \<longleftrightarrow> k \<notin> key ` set c"
  by (induction c) auto

lemma remove_loop_None: "remove_loop c k = None \<longleftrightarrow> k \<notin> key ` set c"
  by (induction c) auto

lemma search_insert_loop_same: "insert_loop c k v = Some c' \<Longrightarrow> search_loop c' k = Some v"
  by (induction c arbitrary: c') (auto simp: pair_update_def split: if_splits)

lemma search_insert_loop_other:
  "k' \<noteq> k \<Longrightarrow> insert_loop c k' v = Some c' \<Longrightarrow> search_loop c' k = search_loop c k"
  by (induction c arbitrary: c') (auto simp: pair_update_def split: if_splits)

lemma insert_loop_keys: "insert_loop c k v = Some c' \<Longrightarrow> map key c' = map key c"
  by (induction c arbitrary: c') (auto simp: pair_update_def split: if_splits)

lemma insert_loop_place:
  "k \<in> key ` set c \<Longrightarrow>
   \<exists>j<length c. key (c ! j) = k \<and> (\<forall>i<j. key (c ! i) \<noteq> k) \<and>
     insert_loop c k v = Some (c[j := (c ! j)\<lparr>val := v\<rparr>])"
proof (induction c)
  case Nil
  then show ?case by simp
next
  case (Cons p c)
  show ?case
  proof (cases "key p = k")
    case True
    then have "0 < length (p # c) \<and> key ((p # c) ! 0) = k \<and> (\<forall>i<0. key ((p # c) ! i) \<noteq> k) \<and>
      insert_loop (p # c) k v = Some ((p # c)[0 := ((p # c) ! 0)\<lparr>val := v\<rparr>])"
      by (simp add: pair_update_def)
    then show ?thesis by blast
  next
    case False
    with Cons.prems have "k \<in> key ` set c" by auto
    from Cons.IH [OF this] obtain j where j: "j < length c" "key (c ! j) = k"
      "\<forall>i<j. key (c ! i) \<noteq> k" "insert_loop c k v = Some (c[j := (c ! j)\<lparr>val := v\<rparr>])"
      by blast
    have "\<forall>i<Suc j. key ((p # c) ! i) \<noteq> k"
      using False j(3) by (auto simp: nth_Cons split: nat.splits)
    then have "Suc j < length (p # c) \<and> key ((p # c) ! Suc j) = k \<and>
      (\<forall>i<Suc j. key ((p # c) ! i) \<noteq> k) \<and>
      insert_loop (p # c) k v = Some ((p # c)[Suc j := ((p # c) ! Suc j)\<lparr>val := v\<rparr>])"
      using False j by simp
    then show ?thesis by blast
  qed
qed

lemma set_entries: "set (entries t) = (\<Union>i<length (buckets t). set (buckets t ! i))"
  by (auto simp: entries_def set_conv_nth [of "buckets t"])

lemma table_insert_wf:
  "table_wf t \<Longrightarrow> table_insert t k v = Some t' \<Longrightarrow> table_wf t' \<and> capacity t' = capacity t"
  by (auto simp: table_insert_def table_wf_def split: option.splits)

lemma table_insert_total: "table_wf t \<Longrightarrow> \<exists>t'. table_insert t k v = Some t'"
  by (simp add: table_insert_def bucket_index_wf split: option.splits)

lemma table_remove_total: "table_wf t \<Longrightarrow> \<exists>r t'. table_remove t k = Some (r, t')"
  by (cases "remove_loop (buckets t ! unat (hash_from_data k (length k) mod capacity t)) k")
     (auto simp: table_remove_def bucket_index_wf)

lemma table_remove_wf:
  "table_wf t \<Longrightarrow> table_remove t k = Some (r, t') \<Longrightarrow> table_wf t'"
  by (auto simp: table_remove_def table_wf_def split: option.splits)

lemma table_search_insert_same:
  assumes "table_insert t k v = Some t'"
  shows "table_search t' k = Some (Some v)"
proof -
  from assms obtain b where b: "bucket_index t k = Some b"
    by (auto simp: table_insert_def split: option.splits)
  then have lt: "b < length (buckets t)" by (rule bucket_index_less)
  have "bucket_index t' k = Some b"
    using assms b by (auto simp: table_insert_def bucket_index_def split: option.splits)
  then show ?thesis
    using assms b lt
    by (auto simp: table_search_def table_insert_def pair_create_def search_insert_loop_same
             split: option.splits)
qed

lemma table_search_insert_other:
  assumes "table_insert t k' v = Some t'" and "k' \<noteq> k"
  shows "table_search t' k = table_search t k"
proof -
  from assms obtain b' where b': "bucket_index t k' = Some b'"
    by (auto simp: table_insert_def split: option.splits)
  then have lt: "b' < length (buckets t)" by (rule bucket_index_less)
  have same: "bucket_index t' k = bucket_index t k"
    using assms b' by (auto simp: table_insert_def bucket_index_def split: option.splits)
  show ?thesis
  proof (cases "bucket_index t k")
    case None
    then show ?thesis using same by (simp add: table_search_def)
  next
    case (Some b)
    show ?thesis
    proof (cases "b = b'")
      case True
      then show ?thesis
        using assms b' lt Some same
        by (auto simp: table_search_def table_insert_def pair_create_def search_insert_loop_other
                 split: option.splits)
    next
      case False
      then show ?thesis
        using assms b' lt Some same
        by (auto simp: table_search_def table_insert_def split: option.splits)
    qed
  qed
qed

lemma table_insert_present:
  assumes "table_insert t k v = Some t'" and "bucket_index t k = Some b"
  shows "k \<in> key ` set (buckets t' ! b)"
proof -
  have lt: "b < length (buckets t)" using assms(2) by (rule bucket_index_less)
  show ?thesis
  proof (cases "insert_loop (buckets t ! b) k v")
    case None
    then show ?thesis using assms lt by (auto simp: table_insert_def pair_create_def)
  next
    case (Some c)
    then have "k \<in> key ` set (buckets t ! b)"
      using insert_loop_None [of "buckets t ! b" k v] by simp
    moreover have "map key c = map key (buckets t ! b)" using Some by (rule insert_loop_keys)
    ultimately have "k \<in> key ` set c" by (metis list.set_map)
    then show ?thesis using assms lt Some by (auto simp: table_insert_def)
  qed
qed

lemma table_insert_present_size:
  assumes "bucket_index t k = Some b" and "k \<in> key ` set (buckets t ! b)"
    and "table_insert t k v = Some t'"
  shows "tsize t' = tsize t"
proof -
  from assms(2) obtain c where "insert_loop (buckets t ! b) k v = Some c"
    using insert_loop_None [of "buckets t ! b" k v] by (cases "insert_loop (buckets t ! b) k v") auto
  then show ?thesis using assms by (auto simp: table_insert_def)
qed

lemma table_insert_absent:
  assumes "bucket_index t K = Some b" and "K \<notin> key ` set (buckets t ! b)"
  shows "table_insert t K V =
           Some (t\<lparr>buckets := (buckets t)[b := \<lparr>key = K, val = V\<rparr> # buckets t ! b],
                   tsize := tsize t + 1\<rparr>)"
proof -
  have "insert_loop (buckets t ! b) K V = None" using assms(2) by (simp add: insert_loop_None)
  then show ?thesis using assms(1) by (simp add: table_insert_def pair_create_def)
qed

lemma map_update_same: "f c = f (xs ! b) \<Longrightarrow> map f (xs[b := c]) = map f xs"
  by (metis list_update_id map_update)

lemma table_insert_present_keys:
  assumes "bucket_index t K = Some b" and "K \<in> key ` set (buckets t ! b)"
    and "table_insert t K V = Some t'"
  shows "map (map key) (buckets t') = map (map key) (buckets t)"
proof -
  from assms(2) obtain c where c: "insert_loop (buckets t ! b) K V = Some c"
    using insert_loop_None [of "buckets t ! b" K V] by (cases "insert_loop (buckets t ! b) K V") auto
  then have "map key c = map key (buckets t ! b)" by (rule insert_loop_keys)
  then have "map (map key) ((buckets t)[b := c]) = map (map key) (buckets t)"
    by (rule map_update_same)
  then show ?thesis using assms(1,3) c by (auto simp: table_insert_def)
qed

section \<open>Search after insertion\<close>

text \<open>
  C6. In a well-formed table, after \<open>table_insert\<close> of a key \<open>K\<close> with a value \<open>V\<close>,
  \<open>table_search\<close> of \<open>K\<close> returns \<open>V\<close>, and it still returns \<open>V\<close> after a further
  \<open>table_insert\<close> of any other key with any value.
\<close>

theorem insert_search_round_trip:
  assumes "table_wf t"
  shows "\<exists>t1. table_insert t K V = Some t1 \<and> table_search t1 K = Some (Some V) \<and>
           (\<forall>K' V'. K' \<noteq> K \<longrightarrow>
              (\<exists>t2. table_insert t1 K' V' = Some t2 \<and> table_search t2 K = Some (Some V)))"
proof -
  from assms obtain t1 where t1: "table_insert t K V = Some t1"
    using table_insert_total by blast
  then have wf1: "table_wf t1" using assms table_insert_wf by blast
  have s1: "table_search t1 K = Some (Some V)" using t1 by (rule table_search_insert_same)
  have "\<exists>t2. table_insert t1 K' V' = Some t2 \<and> table_search t2 K = Some (Some V)"
    if "K' \<noteq> K" for K' V'
  proof -
    from wf1 obtain t2 where t2: "table_insert t1 K' V' = Some t2"
      using table_insert_total by blast
    then show ?thesis using table_search_insert_other [OF t2 that] s1 by simp
  qed
  then show ?thesis using t1 s1 by blast
qed

theorem insert_search_round_trip_witness:
  "table_wf (table_create 4 0) \<and> ''j'' \<noteq> ''k'' \<and>
   (\<exists>t1 t2. table_insert (table_create 4 0) ''k'' (Text ''v'') = Some t1 \<and>
      table_search t1 ''k'' = Some (Some (Text ''v'')) \<and>
      table_insert t1 ''j'' (Number 7) = Some t2 \<and>
      table_search t2 ''k'' = Some (Some (Text ''v'')))"
proof -
  have wf: "table_wf (table_create 4 0)"
    by (simp add: table_wf_def table_create_def)
  have ne: "''j'' \<noteq> ''k''" by simp
  from insert_search_round_trip [OF wf, of "''k''" "Text ''v''"]
  obtain t1 where t1: "table_insert (table_create 4 0) ''k'' (Text ''v'') = Some t1"
      "table_search t1 ''k'' = Some (Some (Text ''v''))"
    and later: "\<And>K' V'. K' \<noteq> ''k'' \<Longrightarrow>
      \<exists>t2. table_insert t1 K' V' = Some t2 \<and> table_search t2 ''k'' = Some (Some (Text ''v''))"
    by auto
  from later [OF ne, of "Number 7"] obtain t2
    where "table_insert t1 ''j'' (Number 7) = Some t2" "table_search t2 ''k'' = Some (Some (Text ''v''))"
    by auto
  with t1 wf ne show ?thesis by metis
qed

text \<open>
  C2. In a well-formed table, \<open>table_insert\<close> of a key \<open>K\<close> with a value \<open>V1\<close> followed by
  \<open>table_insert\<close> of \<open>K\<close> with a value \<open>V2\<close> leaves the size as it was after the first
  insertion, and \<open>table_search\<close> of \<open>K\<close> then returns \<open>V2\<close>.
\<close>

theorem insert_twice:
  assumes "table_wf t"
  shows "\<exists>t1 t2. table_insert t K V1 = Some t1 \<and> table_insert t1 K V2 = Some t2 \<and>
           tsize t2 = tsize t1 \<and> table_search t2 K = Some (Some V2)"
proof -
  from assms obtain t1 where t1: "table_insert t K V1 = Some t1"
    using table_insert_total by blast
  then have wf1: "table_wf t1" using assms table_insert_wf by blast
  then obtain t2 where t2: "table_insert t1 K V2 = Some t2"
    using table_insert_total by blast
  obtain b where b: "bucket_index t K = Some b" using assms by (simp add: bucket_index_wf)
  have b1: "bucket_index t1 K = Some b"
    using b assms wf1 table_insert_wf [OF assms t1] by (simp add: bucket_index_wf)
  have "K \<in> key ` set (buckets t1 ! b)" using t1 b by (rule table_insert_present)
  then have "tsize t2 = tsize t1" using b1 t2 table_insert_present_size by blast
  moreover have "table_search t2 K = Some (Some V2)" using t2 by (rule table_search_insert_same)
  ultimately show ?thesis using t1 t2 by blast
qed

theorem insert_twice_witness:
  "table_wf (table_create 4 0) \<and>
   (\<exists>t1 t2. table_insert (table_create 4 0) ''k'' (Text ''first'') = Some t1 \<and>
      table_insert t1 ''k'' (Text ''second'') = Some t2 \<and>
      tsize t2 = tsize t1 \<and> table_search t2 ''k'' = Some (Some (Text ''second'')))"
proof -
  have wf: "table_wf (table_create 4 0)"
    by (simp add: table_wf_def table_create_def)
  from insert_twice [OF wf, of "''k''" "Text ''first''" "Text ''second''"] wf
  show ?thesis by simp
qed

section \<open>Keys that are not in the table\<close>

lemma absent_in_bucket:
  "K \<notin> key ` set (entries t) \<Longrightarrow> b < length (buckets t) \<Longrightarrow> K \<notin> key ` set (buckets t ! b)"
  by (auto simp: set_entries)

text \<open>
  C7. In a well-formed table that holds no pair with the key \<open>K\<close>, \<open>table_search\<close> of \<open>K\<close>
  returns \<open>NULL\<close> and \<open>table_remove\<close> of \<open>K\<close> returns \<open>false\<close> and leaves the table as it
  was, its size and every chain; \<open>table_search\<close> writes nothing.
\<close>

theorem absent_key_not_found:
  assumes "table_wf t" and "K \<notin> key ` set (entries t)"
  shows "table_search t K = Some None \<and> table_remove t K = Some (False, t)"
proof -
  obtain b where b: "bucket_index t K = Some b" using assms(1) by (simp add: bucket_index_wf)
  then have "b < length (buckets t)" by (rule bucket_index_less)
  with assms(2) have "K \<notin> key ` set (buckets t ! b)" by (rule absent_in_bucket)
  then have "search_loop (buckets t ! b) K = None" "remove_loop (buckets t ! b) K = None"
    by (simp_all add: search_loop_None remove_loop_None)
  with b show ?thesis by (simp add: table_search_def table_remove_def)
qed

theorem absent_key_not_found_witness:
  "table_wf \<lparr>buckets = [[\<lparr>key = ''a'', val = Number 1\<rparr>]], capacity = 1, tsize = 1\<rparr> \<and>
   ''b'' \<notin> key ` set (entries \<lparr>buckets = [[\<lparr>key = ''a'', val = Number 1\<rparr>]], capacity = 1, tsize = 1\<rparr>) \<and>
   table_search \<lparr>buckets = [[\<lparr>key = ''a'', val = Number 1\<rparr>]], capacity = 1, tsize = 1\<rparr> ''b'' = Some None \<and>
   table_remove \<lparr>buckets = [[\<lparr>key = ''a'', val = Number 1\<rparr>]], capacity = 1, tsize = 1\<rparr> ''b'' =
     Some (False, \<lparr>buckets = [[\<lparr>key = ''a'', val = Number 1\<rparr>]], capacity = 1, tsize = 1\<rparr>)"
  using absent_key_not_found
    [of "\<lparr>buckets = [[\<lparr>key = ''a'', val = Number 1\<rparr>]], capacity = 1, tsize = 1\<rparr>" "''b''"]
  by (simp add: table_wf_def entries_def)

section \<open>The invariant of the table\<close>

lemma length_concat_update:
  "b < length xs \<Longrightarrow>
   length (concat (xs[b := c])) + length (xs ! b) = length (concat xs) + length c"
proof (induction xs arbitrary: b)
  case Nil
  then show ?case by simp
next
  case (Cons x xs)
  then show ?case by (cases b) auto
qed

lemma remove_loop_props:
  "remove_loop c k = Some c' \<Longrightarrow>
   set c' \<subseteq> set c \<and> length c = Suc (length c') \<and> (distinct (map key c) \<longrightarrow> distinct (map key c'))"
proof (induction c arbitrary: c')
  case Nil
  then show ?case by simp
next
  case (Cons p c)
  show ?case
  proof (cases "key p = k")
    case True
    with Cons.prems show ?thesis by auto
  next
    case False
    with Cons.prems obtain d where d: "remove_loop c k = Some d" "c' = p # d" by auto
    from Cons.IH [OF d(1)] d(2) show ?thesis by auto
  qed
qed

lemma placed_update:
  assumes "table_placed t" and "b < length (buckets t)"
    and "\<forall>p \<in> set c. b = unat (hash_from_data (key p) (length (key p)) mod capacity t)"
    and "buckets t' = (buckets t)[b := c]" and "capacity t' = capacity t"
  shows "table_placed t'"
  unfolding table_placed_def
proof (intro ballI)
  fix i p
  assume i: "i \<in> {0..<length (buckets t')}" and p: "p \<in> set (buckets t' ! i)"
  show "i = unat (hash_from_data (key p) (length (key p)) mod capacity t')"
  proof (cases "i = b")
    case True
    then have "p \<in> set c" using p assms(2,4) by simp
    then show ?thesis using assms(3,5) True by simp
  next
    case False
    then have "p \<in> set (buckets t ! i)" using p assms(4) by simp
    moreover have "i \<in> {0..<length (buckets t)}" using i assms(4) by simp
    ultimately show ?thesis using assms(1,5) by (simp add: table_placed_def)
  qed
qed

lemma distinct_update:
  assumes "\<forall>c \<in> set xs. distinct (map key c)" and "distinct (map key c')"
  shows "\<forall>c \<in> set (xs[b := c']). distinct (map key c)"
  using assms set_update_subset_insert [of xs b c'] by auto

lemma inv_update:
  assumes "table_inv t" and "b < length (buckets t)"
    and "\<forall>p \<in> set c. b = unat (hash_from_data (key p) (length (key p)) mod capacity t)"
    and "distinct (map key c)"
    and "buckets t' = (buckets t)[b := c]" and "capacity t' = capacity t"
    and "tsize t' = of_nat (length (concat ((buckets t)[b := c])))"
  shows "table_inv t'"
  using assms placed_update [OF _ assms(2,3,5,6)] distinct_update [of "buckets t" c b]
  by (simp add: table_inv_def entries_def)

lemma table_insert_inv:
  assumes "table_inv t" and "table_insert t k v = Some t'"
  shows "table_inv t' \<and> capacity t' = capacity t \<and> length (entries t') \<le> Suc (length (entries t))"
proof -
  from assms(2) obtain b where b: "bucket_index t k = Some b"
    by (auto simp: table_insert_def split: option.splits)
  then have lt: "b < length (buckets t)" by (rule bucket_index_less)
  have bk: "b = unat (hash_from_data k (length k) mod capacity t)" using b by (rule bucket_index_eq)
  have pl: "\<forall>p \<in> set (buckets t ! b). b = unat (hash_from_data (key p) (length (key p)) mod capacity t)"
    using assms(1) lt by (simp add: table_inv_def table_placed_def)
  have di: "distinct (map key (buckets t ! b))"
    using assms(1) lt by (simp add: table_inv_def)
  have sz: "tsize t = of_nat (length (concat (buckets t)))"
    using assms(1) by (simp add: table_inv_def entries_def)
  show ?thesis
  proof (cases "insert_loop (buckets t ! b) k v")
    case None
    let ?c = "\<lparr>key = k, val = v\<rparr> # buckets t ! b"
    have t': "buckets t' = (buckets t)[b := ?c]" "capacity t' = capacity t" "tsize t' = tsize t + 1"
      using assms(2) b None by (auto simp: table_insert_def pair_create_def)
    have "k \<notin> key ` set (buckets t ! b)" using None by (simp add: insert_loop_None)
    then have d: "distinct (map key ?c)" using di by simp
    have p: "\<forall>p \<in> set ?c. b = unat (hash_from_data (key p) (length (key p)) mod capacity t)"
      using pl bk by simp
    have len: "length (concat ((buckets t)[b := ?c])) = Suc (length (concat (buckets t)))"
      using length_concat_update [OF lt, of ?c] by simp
    then have "tsize t' = of_nat (length (concat ((buckets t)[b := ?c])))"
      using t'(3) sz by simp
    from inv_update [OF assms(1) lt p d t'(1,2) this] t' len show ?thesis
      by (simp add: entries_def)
  next
    case (Some c)
    have t': "buckets t' = (buckets t)[b := c]" "capacity t' = capacity t" "tsize t' = tsize t"
      using assms(2) b Some by (auto simp: table_insert_def)
    have keys: "map key c = map key (buckets t ! b)" using Some by (rule insert_loop_keys)
    then have d: "distinct (map key c)" using di by simp
    have "key ` set c = key ` set (buckets t ! b)" using keys by (metis list.set_map)
    then have p: "\<forall>p \<in> set c. b = unat (hash_from_data (key p) (length (key p)) mod capacity t)"
      using pl by (metis (no_types, lifting) image_iff)
    have "length c = length (buckets t ! b)" using keys by (metis length_map)
    then have len: "length (concat ((buckets t)[b := c])) = length (concat (buckets t))"
      using length_concat_update [OF lt, of c] by simp
    then have "tsize t' = of_nat (length (concat ((buckets t)[b := c])))"
      using t'(3) sz by simp
    from inv_update [OF assms(1) lt p d t'(1,2) this] t' len show ?thesis
      by (simp add: entries_def)
  qed
qed

lemma table_remove_inv:
  assumes "table_inv t" and "table_remove t k = Some (r, t')"
  shows "table_inv t' \<and> capacity t' = capacity t \<and> length (entries t') \<le> Suc (length (entries t))"
proof -
  from assms(2) obtain b where b: "bucket_index t k = Some b"
    by (auto simp: table_remove_def split: option.splits)
  then have lt: "b < length (buckets t)" by (rule bucket_index_less)
  have pl: "\<forall>p \<in> set (buckets t ! b). b = unat (hash_from_data (key p) (length (key p)) mod capacity t)"
    using assms(1) lt by (simp add: table_inv_def table_placed_def)
  have di: "distinct (map key (buckets t ! b))"
    using assms(1) lt by (simp add: table_inv_def)
  have sz: "tsize t = of_nat (length (concat (buckets t)))"
    using assms(1) by (simp add: table_inv_def entries_def)
  show ?thesis
  proof (cases "remove_loop (buckets t ! b) k")
    case None
    then have "t' = t" using assms(2) b by (simp add: table_remove_def)
    then show ?thesis using assms(1) by simp
  next
    case (Some c)
    have t': "buckets t' = (buckets t)[b := c]" "capacity t' = capacity t" "tsize t' = tsize t - 1"
      using assms(2) b Some by (auto simp: table_remove_def)
    from remove_loop_props [OF Some] have props: "set c \<subseteq> set (buckets t ! b)"
      "length (buckets t ! b) = Suc (length c)" "distinct (map key c)"
      using di by auto
    have p: "\<forall>p \<in> set c. b = unat (hash_from_data (key p) (length (key p)) mod capacity t)"
      using pl props(1) by blast
    have len: "Suc (length (concat ((buckets t)[b := c]))) = length (concat (buckets t))"
      using length_concat_update [OF lt, of c] props(2) by simp
    then have "tsize t = of_nat (length (concat ((buckets t)[b := c]))) + 1"
      using sz by (metis of_nat_Suc add.commute)
    then have "tsize t' = of_nat (length (concat ((buckets t)[b := c])))"
      using t'(3) by simp
    from inv_update [OF assms(1) lt p props(3) t'(1,2) this] t' len show ?thesis
      by (simp add: entries_def)
  qed
qed

lemma table_step_inv:
  assumes "table_inv t" and "table_step t op = Some (r, t')"
  shows "table_inv t' \<and> capacity t' = capacity t \<and> length (entries t') \<le> Suc (length (entries t))"
proof (cases op)
  case (Insert k v)
  then show ?thesis using assms table_insert_inv by auto
next
  case (Search k)
  then show ?thesis using assms by auto
next
  case (Remove k)
  then show ?thesis using assms table_remove_inv by auto
qed

lemma table_run_inv:
  "table_inv t \<Longrightarrow> table_run t ops = Some (rs, t') \<Longrightarrow>
   table_inv t' \<and> capacity t' = capacity t \<and> length (entries t') \<le> length (entries t) + length ops"
proof (induction ops arbitrary: t rs)
  case Nil
  then show ?case by simp
next
  case (Cons op ops)
  from Cons.prems(2) obtain r t1 rs1 where s: "table_step t op = Some (r, t1)"
    and r: "table_run t1 ops = Some (rs1, t')"
    by (auto split: option.splits)
  from table_step_inv [OF Cons.prems(1) s] Cons.IH [OF _ r] show ?case by auto
qed

lemma table_create_inv: "table_inv (table_create dc cap)"
  by (simp add: table_inv_def table_create_def table_placed_def entries_def Let_def)

lemma table_create_entries: "entries (table_create dc cap) = []"
  by (simp add: table_create_def entries_def Let_def)

lemma distinct_placed_concat:
  assumes "\<forall>i<length xs. distinct (map f (xs ! i))"
    and "\<forall>i<length xs. \<forall>p \<in> set (xs ! i). g (f p) = i"
  shows "distinct (map f (concat xs))"
  using assms
proof (induction xs rule: rev_induct)
  case Nil
  then show ?case by simp
next
  case (snoc c xs)
  have a: "\<forall>i<length xs. distinct (map f (xs ! i))"
    and b: "\<forall>i<length xs. \<forall>p \<in> set (xs ! i). g (f p) = i"
    using snoc.prems by (auto simp: nth_append split: if_splits)
  have c1: "distinct (map f c)" and c2: "\<forall>p \<in> set c. g (f p) = length xs"
    using snoc.prems by (auto simp: nth_append split: if_splits)
  have "f p \<noteq> f q" if "p \<in> set (concat xs)" and "q \<in> set c" for p q
  proof -
    from that(1) obtain i where "i < length xs" "p \<in> set (xs ! i)"
      by (auto simp: set_conv_nth [of xs])
    then have "g (f p) < length xs" using b by auto
    moreover have "g (f q) = length xs" using c2 that(2) by simp
    ultimately show ?thesis by auto
  qed
  then have "f ` set (concat xs) \<inter> f ` set c = {}" by blast
  with snoc.IH [OF a b] c1 show ?case by simp
qed

lemma table_inv_distinct:
  assumes "table_inv t"
  shows "distinct (map key (entries t))"
  unfolding entries_def
proof (rule distinct_placed_concat [where g = "\<lambda>k. unat (hash_from_data k (length k) mod capacity t)"])
  show "\<forall>i<length (buckets t). distinct (map key (buckets t ! i))"
    using assms by (simp add: table_inv_def)
  show "\<forall>i<length (buckets t). \<forall>p\<in>set (buckets t ! i).
          unat (hash_from_data (key p) (length (key p)) mod capacity t) = i"
    using assms by (auto simp: table_inv_def table_placed_def)
qed

lemma table_step_total:
  assumes "table_wf t"
  shows "\<exists>r t'. table_step t op = Some (r, t') \<and> table_wf t'"
proof (cases op)
  case (Insert k v)
  then show ?thesis using assms table_insert_total [OF assms, of k v] table_insert_wf by auto
next
  case (Search k)
  then show ?thesis using assms by (simp add: table_search_def bucket_index_wf)
next
  case (Remove k)
  then show ?thesis using assms table_remove_total [OF assms, of k] table_remove_wf by auto
qed

lemma table_run_total: "table_wf t \<Longrightarrow> \<exists>rs t'. table_run t ops = Some (rs, t')"
proof (induction ops arbitrary: t)
  case Nil
  then show ?case by simp
next
  case (Cons op ops)
  from table_step_total [OF Cons.prems, of op] obtain r t1
    where s: "table_step t op = Some (r, t1)" "table_wf t1" by blast
  from Cons.IH [OF s(2)] obtain rs t' where "table_run t1 ops = Some (rs, t')" by blast
  with s(1) show ?case by simp
qed

lemma table_create_wf: "dc \<noteq> 0 \<or> cap \<noteq> 0 \<Longrightarrow> table_wf (table_create dc cap)"
  by (auto simp: table_wf_def table_create_def Let_def)

text \<open>
  C4. Every table that a sequence of \<open>table_insert\<close>, \<open>table_remove\<close> (and
  \<open>table_search\<close>) operations reaches from \<open>table_create\<close> satisfies: \<open>size\<close> is the number
  of pairs in the chains (as a \<open>size_t\<close>, and exactly so after fewer than \<open>2^64\<close>
  operations), no key occurs in two pairs, every pair is in the bucket
  \<open>hash_from_data(key) % capacity\<close>, and the capacity and the number of buckets are those
  of the creation. When the capacity is not zero, every such sequence runs.
\<close>

theorem reachable_table_invariant:
  "(dc \<noteq> 0 \<or> cap \<noteq> 0 \<longrightarrow> (\<exists>rs t. table_run (table_create dc cap) ops = Some (rs, t))) \<and>
   (\<forall>rs t. table_run (table_create dc cap) ops = Some (rs, t) \<longrightarrow>
      tsize t = of_nat (length (entries t)) \<and>
      (length ops < 2 ^ 64 \<longrightarrow> unat (tsize t) = length (entries t)) \<and>
      distinct (map key (entries t)) \<and>
      (\<forall>i \<in> {0..<length (buckets t)}. \<forall>p \<in> set (buckets t ! i).
         i = unat (hash_from_data (key p) (length (key p)) mod capacity t)) \<and>
      capacity t = capacity (table_create dc cap) \<and>
      length (buckets t) = unat (capacity t))"
proof (intro conjI allI impI)
  assume "dc \<noteq> 0 \<or> cap \<noteq> 0"
  then have "table_wf (table_create dc cap)" by (rule table_create_wf)
  then show "\<exists>rs t. table_run (table_create dc cap) ops = Some (rs, t)" by (rule table_run_total)
next
  fix rs t
  assume run: "table_run (table_create dc cap) ops = Some (rs, t)"
  from table_run_inv [OF table_create_inv run]
  have inv: "table_inv t" and cap: "capacity t = capacity (table_create dc cap)"
    and len: "length (entries t) \<le> length ops"
    by (simp_all add: table_create_entries)
  show "tsize t = of_nat (length (entries t))" using inv by (simp add: table_inv_def)
  show "distinct (map key (entries t))" using inv by (rule table_inv_distinct)
  show "capacity t = capacity (table_create dc cap)" by (rule cap)
  show "length (buckets t) = unat (capacity t)" using inv by (simp add: table_inv_def)
  show "\<forall>i \<in> {0..<length (buckets t)}. \<forall>p \<in> set (buckets t ! i).
         i = unat (hash_from_data (key p) (length (key p)) mod capacity t)"
    using inv by (simp add: table_inv_def table_placed_def)
  show "unat (tsize t) = length (entries t)" if "length ops < 2 ^ 64"
  proof -
    have "length (entries t) < 2 ^ 64" using len that by simp
    moreover have "tsize t = of_nat (length (entries t))" using inv by (simp add: table_inv_def)
    ultimately show ?thesis by (simp add: unat_of_nat)
  qed
qed

theorem reachable_table_invariant_witness:
  "let ops = [Insert ''a'' (Number 1), Insert ''e'' (Text ''x''), Insert ''b'' (Number 2),
              Insert ''a'' (Number 3), Search ''a'', Remove ''e'', Remove ''zz''];
       rs = [(Inserted, 1), (Inserted, 2), (Inserted, 3), (Inserted, 3),
             (Found (Some (Number 3)), 3), (Removed True, 2), (Removed False, 2)];
       t = \<lparr>buckets = [[\<lparr>key = ''a'', val = Number 3\<rparr>], [\<lparr>key = ''b'', val = Number 2\<rparr>], [], []],
            capacity = 4, tsize = 2\<rparr>
   in table_run (table_create 4 0) ops = Some (rs, t) \<and> length ops < 2 ^ 64 \<and>
      unat (tsize t) = length (entries t) \<and> distinct (map key (entries t)) \<and>
      (\<forall>i \<in> {0..<length (buckets t)}. \<forall>p \<in> set (buckets t ! i).
         i = unat (hash_from_data (key p) (length (key p)) mod capacity t)) \<and>
      capacity t = capacity (table_create 4 0) \<and> length (buckets t) = unat (capacity t)"
proof -
  let ?ops = "[Insert ''a'' (Number 1), Insert ''e'' (Text ''x''), Insert ''b'' (Number 2),
              Insert ''a'' (Number 3), Search ''a'', Remove ''e'', Remove ''zz'']"
  let ?rs = "[(Inserted, 1), (Inserted, 2), (Inserted, 3), (Inserted, 3),
             (Found (Some (Number 3)), 3), (Removed True, 2), (Removed False, 2 :: size_t)]"
  let ?t = "\<lparr>buckets = [[\<lparr>key = ''a'', val = Number 3\<rparr>], [\<lparr>key = ''b'', val = Number 2\<rparr>], [], []],
            capacity = 4, tsize = 2\<rparr>"
  have run: "table_run (table_create 4 0) ?ops = Some (?rs, ?t)"
    by code_simp
  have len: "length ?ops < 2 ^ 64" by simp
  from reachable_table_invariant [of 4 0 ?ops]
  have "\<forall>rs t. table_run (table_create 4 0) ?ops = Some (rs, t) \<longrightarrow>
      tsize t = of_nat (length (entries t)) \<and>
      (length ?ops < 2 ^ 64 \<longrightarrow> unat (tsize t) = length (entries t)) \<and>
      distinct (map key (entries t)) \<and>
      (\<forall>i \<in> {0..<length (buckets t)}. \<forall>p \<in> set (buckets t ! i).
         i = unat (hash_from_data (key p) (length (key p)) mod capacity t)) \<and>
      capacity t = capacity (table_create 4 0) \<and>
      length (buckets t) = unat (capacity t)"
    by (rule conjunct2)
  from this [rule_format, OF run] len run show ?thesis
    unfolding Let_def by blast
qed

section \<open>Updating a key that is present\<close>

lemma map_key_update_val:
  "j < length c \<Longrightarrow> map key (c[j := (c ! j)\<lparr>val := v\<rparr>]) = map key c"
  by (simp add: map_update list_update_same_conv)

lemma present_in_own_bucket:
  assumes "table_wf t" and "table_placed t" and "K \<in> key ` set (entries t)"
  shows "\<exists>b. bucket_index t K = Some b \<and> K \<in> key ` set (buckets t ! b)"
proof -
  from assms(3) obtain i p where i: "i < length (buckets t)" and p: "p \<in> set (buckets t ! i)"
    and k: "key p = K"
    by (auto simp: set_entries)
  then have "i = unat (hash_from_data K (length K) mod capacity t)"
    using assms(2) by (auto simp: table_placed_def)
  then have "bucket_index t K = Some i" using assms(1) by (simp add: bucket_index_wf)
  then show ?thesis using p k by blast
qed

text \<open>
  C10. In a well-formed table whose pairs are in the buckets of their keys, \<open>table_insert\<close>
  of a key \<open>K\<close> that is present replaces the value (and its type tag) of the first pair
  with that key in the chain of its bucket, at the position where the pair is: the keys
  of every chain stay in their order, so the pair is not moved to the head, and the
  other pairs of the chain, the other buckets, the size and the capacity are as before.
\<close>

theorem update_in_place:
  assumes "table_wf t" and "table_placed t" and "K \<in> key ` set (entries t)"
  shows "\<exists>b j t'. bucket_index t K = Some b \<and> j < length (buckets t ! b) \<and>
           key (buckets t ! b ! j) = K \<and> (\<forall>i<j. key (buckets t ! b ! i) \<noteq> K) \<and>
           table_insert t K V = Some t' \<and>
           t' = t\<lparr>buckets := (buckets t)[b := (buckets t ! b)[j := (buckets t ! b ! j)\<lparr>val := V\<rparr>]]\<rparr> \<and>
           tsize t' = tsize t \<and> capacity t' = capacity t \<and>
           map (map key) (buckets t') = map (map key) (buckets t) \<and>
           (\<forall>i. i \<noteq> b \<longrightarrow> buckets t' ! i = buckets t ! i) \<and>
           (\<forall>i. i \<noteq> j \<longrightarrow> buckets t' ! b ! i = buckets t ! b ! i)"
proof -
  from present_in_own_bucket [OF assms] obtain b
    where b: "bucket_index t K = Some b" and mem: "K \<in> key ` set (buckets t ! b)" by blast
  have lt: "b < length (buckets t)" using b by (rule bucket_index_less)
  let ?c = "buckets t ! b"
  from insert_loop_place [OF mem, of V] obtain j where j: "j < length ?c" "key (?c ! j) = K"
    "\<forall>i<j. key (?c ! i) \<noteq> K" "insert_loop ?c K V = Some (?c[j := (?c ! j)\<lparr>val := V\<rparr>])"
    by blast
  let ?t' = "t\<lparr>buckets := (buckets t)[b := ?c[j := (?c ! j)\<lparr>val := V\<rparr>]]\<rparr>"
  have ins: "table_insert t K V = Some ?t'" using b j(4) by (simp add: table_insert_def)
  have "map key (?c[j := (?c ! j)\<lparr>val := V\<rparr>]) = map key ?c"
    using j(1) by (rule map_key_update_val)
  then have "map (map key) ((buckets t)[b := ?c[j := (?c ! j)\<lparr>val := V\<rparr>]]) = map (map key) (buckets t)"
    by (rule map_update_same)
  then have keys: "map (map key) (buckets ?t') = map (map key) (buckets t)"
    by simp
  have others: "\<forall>i. i \<noteq> b \<longrightarrow> buckets ?t' ! i = buckets t ! i" by simp
  have chain: "\<forall>i. i \<noteq> j \<longrightarrow> buckets ?t' ! b ! i = buckets t ! b ! i" using lt by simp
  show ?thesis
    using b j(1,2,3) ins keys others chain
    by (intro exI [of _ b] exI [of _ j] exI [of _ ?t']) simp
qed

theorem update_in_place_witness:
  "let t = \<lparr>buckets = [[\<lparr>key = ''b'', val = Number 2\<rparr>, \<lparr>key = ''a'', val = Number 1\<rparr>]],
            capacity = 1, tsize = 2\<rparr>
   in table_wf t \<and> table_placed t \<and> ''a'' \<in> key ` set (entries t) \<and>
      table_insert t ''a'' (Text ''new'') =
        Some \<lparr>buckets = [[\<lparr>key = ''b'', val = Number 2\<rparr>, \<lparr>key = ''a'', val = Text ''new''\<rparr>]],
              capacity = 1, tsize = 2\<rparr>"
proof -
  let ?t = "\<lparr>buckets = [[\<lparr>key = ''b'', val = Number 2\<rparr>, \<lparr>key = ''a'', val = Number 1\<rparr>]],
            capacity = 1, tsize = 2\<rparr>"
  have wf: "table_wf ?t" by (simp add: table_wf_def)
  have pl: "table_placed ?t" by (simp add: table_placed_def)
  have mem: "''a'' \<in> key ` set (entries ?t)" by (simp add: entries_def)
  from update_in_place [OF wf pl mem, of "Text ''new''"] obtain b j t'
    where b: "bucket_index ?t ''a'' = Some b" and j: "j < length (buckets ?t ! b)"
      and k: "key (buckets ?t ! b ! j) = ''a''"
      and ins: "table_insert ?t ''a'' (Text ''new'') = Some t'"
      and t': "t' = ?t\<lparr>buckets := (buckets ?t)[b := (buckets ?t ! b)[j := (buckets ?t ! b ! j)\<lparr>val := Text ''new''\<rparr>]]\<rparr>"
    by blast
  have "b = 0" using b by (simp add: bucket_index_def)
  moreover from this j k have "j = 1" by (cases j) (auto simp: nth_Cons split: nat.splits)
  ultimately have "t' = \<lparr>buckets = [[\<lparr>key = ''b'', val = Number 2\<rparr>, \<lparr>key = ''a'', val = Text ''new''\<rparr>]],
              capacity = 1, tsize = 2\<rparr>"
    using t' by simp
  with wf pl mem ins show ?thesis unfolding Let_def by simp
qed

section \<open>The default capacity\<close>

text \<open>
  C8. With a default capacity that is not zero, \<open>table_create(0)\<close> gives a table with that
  capacity, and every sequence of \<open>table_insert\<close>, \<open>table_search\<close> and \<open>table_remove\<close>
  operations runs on it and gives the same results, the same sizes and the same table as
  on the table created with the default capacity itself.
\<close>

theorem create_zero_is_default:
  assumes "DEFAULT_CAPACITY \<noteq> 0"
  shows "capacity (table_create DEFAULT_CAPACITY 0) = DEFAULT_CAPACITY \<and>
         0 < unat (capacity (table_create DEFAULT_CAPACITY 0)) \<and>
         length (buckets (table_create DEFAULT_CAPACITY 0)) = unat DEFAULT_CAPACITY \<and>
         (\<forall>ops. table_run (table_create DEFAULT_CAPACITY 0) ops =
                  table_run (table_create DEFAULT_CAPACITY DEFAULT_CAPACITY) ops \<and>
                (\<exists>rs t. table_run (table_create DEFAULT_CAPACITY 0) ops = Some (rs, t)))"
proof -
  have eq: "table_create DEFAULT_CAPACITY 0 = table_create DEFAULT_CAPACITY DEFAULT_CAPACITY"
    by (simp add: table_create_def)
  have wf: "table_wf (table_create DEFAULT_CAPACITY 0)"
    using assms by (simp add: table_create_wf)
  have "\<exists>rs t. table_run (table_create DEFAULT_CAPACITY 0) ops = Some (rs, t)" for ops
    using wf by (rule table_run_total)
  moreover have "0 < unat DEFAULT_CAPACITY" using assms by (simp add: unat_gt_0)
  ultimately show ?thesis using eq by (simp add: table_create_def)
qed

theorem create_zero_is_default_witness:
  "(1024 :: size_t) \<noteq> 0 \<and> capacity (table_create 1024 0) = 1024 \<and>
   table_run (table_create 1024 0) [Insert ''k'' (Number 5), Search ''k'', Remove ''k''] =
   table_run (table_create 1024 1024) [Insert ''k'' (Number 5), Search ''k'', Remove ''k''] \<and>
   (\<exists>rs t. table_run (table_create 1024 0) [Insert ''k'' (Number 5), Search ''k'', Remove ''k''] = Some (rs, t))"
proof -
  have ne: "(1024 :: size_t) \<noteq> 0" by simp
  from create_zero_is_default [OF ne] ne show ?thesis by blast
qed

section \<open>The text that table_format writes\<close>

lemma format_buckets_index_order:
  "concat (map (\<lambda>i. format_chain (xs ! i)) [0..<length xs]) = concat (map format_chain xs)"
proof -
  have "map (\<lambda>i. format_chain (xs ! i)) [0..<length xs] = map format_chain (map ((!) xs) [0..<length xs])"
    by simp
  then show ?thesis by (simp only: map_nth)
qed

lemma table_format_wf:
  "table_wf t \<Longrightarrow> table_format (Some t) = Some (concat (map format_chain (buckets t)))"
  using format_buckets_index_order [of "buckets t"] by (simp add: table_format_def table_wf_def)

lemma format_entries: "concat (map format_chain xs) = concat (map pair_format (concat xs))"
  by (induction xs) (simp_all add: format_chain_def)

lemma concat_update_head:
  "b < length xs \<Longrightarrow>
   concat (map f (xs[b := p # xs ! b])) = concat (map f (take b xs)) @ f (p # xs ! b) @ concat (map f (drop (Suc b) xs))"
  by (simp add: upd_conv_take_nth_drop)

lemma digit_value: "d < 10 \<Longrightarrow> of_char (digit d) = 48 + d"
proof -
  assume "d < 10"
  then have "d = 0 \<or> d = 1 \<or> d = 2 \<or> d = 3 \<or> d = 4 \<or> d = 5 \<or> d = 6 \<or> d = 7 \<or> d = 8 \<or> d = 9"
    by arith
  then show ?thesis by (auto simp: digit_def)
qed

lemma decimal_value_decimal: "decimal_value (decimal n) = n"
proof (induction n rule: decimal.induct)
  case (1 n)
  show ?case
  proof (cases "n < 10")
    case True
    then show ?thesis by (simp add: decimal.simps [of n] decimal_value_def digit_value)
  next
    case False
    have "decimal_value (decimal n) = 10 * decimal_value (decimal (n div 10)) + (of_char (digit (n mod 10)) - 48)"
      using False by (simp add: decimal.simps [of n] decimal_value_def)
    also have "\<dots> = 10 * (n div 10) + n mod 10"
      using "1.IH" False by (simp add: digit_value)
    finally show ?thesis by simp
  qed
qed

text \<open>
  C3, with the order the code keeps in a chain. For a well-formed table, \<open>table_format\<close> writes the chains bucket by
  bucket in index order and each chain from its head on, one line per stored pair: the
  key, a tab, the value and a newline, a text as it is and a number as the decimal numeral
  of the signed value. A key that \<open>table_insert\<close> adds becomes the head of its chain, so
  its line is the first of its bucket; \<open>table_insert\<close> of a key that is present leaves
  the order of the keys as it was.
\<close>

theorem table_format_lines:
  assumes "table_wf t"
  shows "table_format (Some t) = Some (concat (map format_chain (buckets t))) \<and>
         concat (map format_chain (buckets t)) = concat (map pair_format (entries t)) \<and>
         (\<forall>k s. pair_format \<lparr>key = k, val = Text s\<rparr> = k @ [TAB] @ s @ [NEWLINE]) \<and>
         (\<forall>k n. pair_format \<lparr>key = k, val = Number n\<rparr> = k @ [TAB] @ printf_ld n @ [NEWLINE]) \<and>
         (\<forall>n. printf_ld n = (if sint n < 0 then CHR ''-'' # decimal (nat (- sint n))
                               else decimal (nat (sint n)))) \<and>
         (\<forall>m. decimal_value (decimal m) = m) \<and>
         (\<forall>K V b. bucket_index t K = Some b \<longrightarrow> K \<notin> key ` set (buckets t ! b) \<longrightarrow>
            (\<exists>t'. table_insert t K V = Some t' \<and>
               buckets t' ! b = \<lparr>key = K, val = V\<rparr> # buckets t ! b \<and>
               table_format (Some t') =
                 Some (concat (map format_chain (take b (buckets t))) @
                       pair_format \<lparr>key = K, val = V\<rparr> @
                       concat (map format_chain (drop b (buckets t)))))) \<and>
         (\<forall>K V b t'. bucket_index t K = Some b \<longrightarrow> K \<in> key ` set (buckets t ! b) \<longrightarrow>
            table_insert t K V = Some t' \<longrightarrow>
            map (map key) (buckets t') = map (map key) (buckets t))"
proof -
  have new: "\<exists>t'. table_insert t K V = Some t' \<and>
               buckets t' ! b = \<lparr>key = K, val = V\<rparr> # buckets t ! b \<and>
               table_format (Some t') =
                 Some (concat (map format_chain (take b (buckets t))) @
                       pair_format \<lparr>key = K, val = V\<rparr> @
                       concat (map format_chain (drop b (buckets t))))"
    if b: "bucket_index t K = Some b" and absent: "K \<notin> key ` set (buckets t ! b)" for K V b
  proof -
    let ?p = "\<lparr>key = K, val = V\<rparr>"
    let ?t' = "t\<lparr>buckets := (buckets t)[b := ?p # buckets t ! b], tsize := tsize t + 1\<rparr>"
    have lt: "b < length (buckets t)" using b by (rule bucket_index_less)
    have ins: "table_insert t K V = Some ?t'" using b absent by (rule table_insert_absent)
    have "table_wf ?t'" using assms ins table_insert_wf by blast
    then have "table_format (Some ?t') = Some (concat (map format_chain (buckets ?t')))"
      by (rule table_format_wf)
    also have "concat (map format_chain (buckets ?t')) =
        concat (map format_chain (take b (buckets t))) @ format_chain (?p # buckets t ! b) @
        concat (map format_chain (drop (Suc b) (buckets t)))"
      using concat_update_head [OF lt, of format_chain ?p] by simp
    also have "\<dots> = concat (map format_chain (take b (buckets t))) @ pair_format ?p @
        concat (map format_chain (drop b (buckets t)))"
    proof -
      have "drop b (buckets t) = buckets t ! b # drop (Suc b) (buckets t)"
        using lt by (simp add: Cons_nth_drop_Suc)
      then have "concat (map format_chain (drop b (buckets t))) =
          format_chain (buckets t ! b) @ concat (map format_chain (drop (Suc b) (buckets t)))"
        by simp
      then show ?thesis by (simp add: format_chain_def)
    qed
    finally show ?thesis using ins lt by simp
  qed
  show ?thesis
    using table_format_wf [OF assms] format_entries [of "buckets t"] new
      table_insert_present_keys [of t] decimal_value_decimal
    by (simp add: pair_format_def printf_ld_def entries_def)
qed

theorem table_format_lines_witness:
  "let t = \<lparr>buckets = [[\<lparr>key = ''b'', val = Number 2\<rparr>, \<lparr>key = ''a'', val = Text ''one''\<rparr>]],
            capacity = 1, tsize = 2\<rparr>
   in table_wf t \<and>
      table_format (Some t) = Some (''b'' @ [TAB] @ ''2'' @ [NEWLINE] @ ''a'' @ [TAB] @ ''one'' @ [NEWLINE]) \<and>
      bucket_index t ''c'' = Some 0 \<and> ''c'' \<notin> key ` set (buckets t ! 0) \<and>
      (\<exists>t'. table_insert t ''c'' (Number (- 42)) = Some t' \<and>
         table_format (Some t') =
           Some (''c'' @ [TAB] @ ''-42'' @ [NEWLINE] @ ''b'' @ [TAB] @ ''2'' @ [NEWLINE] @
                 ''a'' @ [TAB] @ ''one'' @ [NEWLINE])) \<and>
      bucket_index t ''a'' = Some 0 \<and> ''a'' \<in> key ` set (buckets t ! 0) \<and>
      (\<exists>t'. table_insert t ''a'' (Number 7) = Some t' \<and>
         map (map key) (buckets t') = [[''b'', ''a'']])"
proof -
  let ?t = "\<lparr>buckets = [[\<lparr>key = ''b'', val = Number 2\<rparr>, \<lparr>key = ''a'', val = Text ''one''\<rparr>]],
            capacity = 1, tsize = 2\<rparr>"
  have wf: "table_wf ?t" by (simp add: table_wf_def)
  have bc: "bucket_index ?t ''c'' = Some 0" and ba: "bucket_index ?t ''a'' = Some 0"
    by (simp_all add: bucket_index_def)
  have absent: "''c'' \<notin> key ` set (buckets ?t ! 0)" by simp
  have present: "''a'' \<in> key ` set (buckets ?t ! 0)" by simp
  obtain ta where ta: "table_insert ?t ''a'' (Number 7) = Some ta"
    using table_insert_total [OF wf] by blast
  note lines = table_format_lines [OF wf]
  have 1: "table_format (Some ?t) = Some (concat (map format_chain (buckets ?t)))"
    by (rule lines [THEN conjunct1])
  note rest = lines [THEN conjunct2, THEN conjunct2, THEN conjunct2, THEN conjunct2,
      THEN conjunct2, THEN conjunct2]
  have 2: "\<exists>t'. table_insert ?t ''c'' (Number (- 42)) = Some t' \<and>
      buckets t' ! 0 = \<lparr>key = ''c'', val = Number (- 42)\<rparr> # buckets ?t ! 0 \<and>
      table_format (Some t') =
        Some (concat (map format_chain (take 0 (buckets ?t))) @
              pair_format \<lparr>key = ''c'', val = Number (- 42)\<rparr> @
              concat (map format_chain (drop 0 (buckets ?t))))"
    by (rule rest [THEN conjunct1, rule_format, OF bc absent])
  have 3: "map (map key) (buckets ta) = map (map key) (buckets ?t)"
    by (rule rest [THEN conjunct2, rule_format, OF ba present ta])
  have fmt: "concat (map format_chain (buckets ?t)) =
      ''b'' @ [TAB] @ ''2'' @ [NEWLINE] @ ''a'' @ [TAB] @ ''one'' @ [NEWLINE]"
    by (simp add: format_chain_def pair_format_def printf_ld_def decimal.simps digit_def)
  have neg: "pair_format \<lparr>key = ''c'', val = Number (- 42)\<rparr> = ''c'' @ [TAB] @ ''-42'' @ [NEWLINE]"
    by (simp add: pair_format_def printf_ld_def decimal.simps digit_def)
  from 2 obtain tc where tc: "table_insert ?t ''c'' (Number (- 42)) = Some tc"
    "table_format (Some tc) =
        Some (concat (map format_chain (take 0 (buckets ?t))) @
              pair_format \<lparr>key = ''c'', val = Number (- 42)\<rparr> @
              concat (map format_chain (drop 0 (buckets ?t))))"
    by blast
  have c: "table_format (Some tc) =
      Some (''c'' @ [TAB] @ ''-42'' @ [NEWLINE] @ ''b'' @ [TAB] @ ''2'' @ [NEWLINE] @
            ''a'' @ [TAB] @ ''one'' @ [NEWLINE])"
    using tc(2) fmt neg by simp
  have a: "map (map key) (buckets ta) = [[''b'', ''a'']]" using 3 by simp
  have f: "table_format (Some ?t) = Some (''b'' @ [TAB] @ ''2'' @ [NEWLINE] @ ''a'' @ [TAB] @ ''one'' @ [NEWLINE])"
    using 1 fmt by simp
  have e1: "\<exists>t'. table_insert ?t ''c'' (Number (- 42)) = Some t' \<and>
         table_format (Some t') =
           Some (''c'' @ [TAB] @ ''-42'' @ [NEWLINE] @ ''b'' @ [TAB] @ ''2'' @ [NEWLINE] @
                 ''a'' @ [TAB] @ ''one'' @ [NEWLINE])"
    using tc(1) c by (intro exI [of _ tc] conjI)
  have e2: "\<exists>t'. table_insert ?t ''a'' (Number 7) = Some t' \<and>
         map (map key) (buckets t') = [[''b'', ''a'']]"
    using ta a by (intro exI [of _ ta] conjI)
  show ?thesis
    unfolding Let_def by (intro conjI wf f bc absent e1 ba present e2)
qed

text \<open>
  In a table of one bucket, after \<open>table_insert\<close> of \<open>a\<close>, of \<open>b\<close> and again of \<open>a\<close>, the
  key updated last is \<open>a\<close>, and \<open>table_format\<close> writes the line of \<open>b\<close> first.
\<close>

theorem table_format_after_update_counterexample:
  "table_insert (table_create 1 1) ''a'' (Number 1) =
     Some \<lparr>buckets = [[\<lparr>key = ''a'', val = Number 1\<rparr>]], capacity = 1, tsize = 1\<rparr> \<and>
   table_insert \<lparr>buckets = [[\<lparr>key = ''a'', val = Number 1\<rparr>]], capacity = 1, tsize = 1\<rparr>
       ''b'' (Number 2) =
     Some \<lparr>buckets = [[\<lparr>key = ''b'', val = Number 2\<rparr>, \<lparr>key = ''a'', val = Number 1\<rparr>]],
           capacity = 1, tsize = 2\<rparr> \<and>
   table_insert \<lparr>buckets = [[\<lparr>key = ''b'', val = Number 2\<rparr>, \<lparr>key = ''a'', val = Number 1\<rparr>]],
                 capacity = 1, tsize = 2\<rparr> ''a'' (Number 3) =
     Some \<lparr>buckets = [[\<lparr>key = ''b'', val = Number 2\<rparr>, \<lparr>key = ''a'', val = Number 3\<rparr>]],
           capacity = 1, tsize = 2\<rparr> \<and>
   table_format (Some \<lparr>buckets = [[\<lparr>key = ''b'', val = Number 2\<rparr>, \<lparr>key = ''a'', val = Number 3\<rparr>]],
                        capacity = 1, tsize = 2\<rparr>) =
     Some (''b'' @ [TAB] @ ''2'' @ [NEWLINE] @ ''a'' @ [TAB] @ ''3'' @ [NEWLINE])"
  by (simp add: table_create_def table_insert_def bucket_index_def pair_create_def pair_update_def
        table_format_def format_chain_def pair_format_def printf_ld_def decimal.simps digit_def)

section \<open>Files that cannot be read, and the options\<close>

lemma add_count_0: "add_count c 0 = c"
  unfolding add_count_def by (simp add: bit_eq_iff bit_simps)

lemma hash_from_file_None: "hash_from_file sys path = None \<longleftrightarrow> fopen sys path = None"
  by (simp add: hash_from_file_def Let_def split: option.splits)

lemma fread_loop_Nil: "fread_loop update bufsiz c [] = c"
  by (subst fread_loop.simps) simp

lemma fread_loop_short:
  assumes "file \<noteq> []" and "length file \<le> bufsiz"
  shows "fread_loop update bufsiz c file = update c file"
proof -
  have "fread_loop update bufsiz c file = fread_loop update bufsiz (update c file) []"
    using assms by (subst fread_loop.simps) (simp add: min_def)
  then show ?thesis by (simp add: fread_loop_Nil)
qed

lemma fread_hello: "fread_loop update 8192 init hello = update init hello"
  by (rule fread_loop_short) (simp_all add: hello_def)

lemma search_loop_Some: "search_loop c k = Some v \<Longrightarrow> \<exists>p \<in> set c. val p = v"
  by (induction c) (auto split: if_splits)

lemma table_search_text:
  assumes "table_of_texts t" and "table_search t k = Some (Some v)"
  shows "\<exists>s. v = Text s"
proof -
  from assms(2) obtain b where b: "bucket_index t k = Some b"
    and s: "search_loop (buckets t ! b) k = Some v"
    by (auto simp: table_search_def split: option.splits)
  from search_loop_Some [OF s] obtain p where p: "p \<in> set (buckets t ! b)" "val p = v" by blast
  have "b < length (buckets t)" using b by (rule bucket_index_less)
  with p(1) have "p \<in> set (entries t)" by (auto simp: set_entries)
  then have "type_of (val p) = STRING" using assms(1) by (simp add: table_of_texts_def)
  then show ?thesis using p(2) by (cases v) auto
qed

lemmas scanner_eval = scenario_def compose_path_def sprintf_path_def is_directory_def
  check_file_def hash_from_file_def fread_hello table_search_def table_insert_def bucket_index_def
  pair_create_def add_count_def Let_def

lemma hello_hex:
  "concat (map sprintf_02x (take MD5_DIGEST_LENGTH (zero_padded hello))) =
   ''68656c6c6f0000000000000000000000''"
  by (simp add: MD5_DIGEST_LENGTH_def sprintf_02x_def digit_def hello_def zero_padded_def)

text \<open>
  C5. When the digest of a file cannot be computed (\<open>hash_from_file\<close> returns \<open>false\<close>,
  which it does exactly when \<open>fopen\<close> fails), \<open>check_file\<close> returns 0, prints nothing and
  leaves the table as it was; and when the \<open>readdir\<close> loop of \<open>check_directory\<close> meets
  such a file, it goes on with the entries that follow, with the count and the table
  it had.
\<close>

theorem unreadable_file_skipped:
  assumes "hash_from_file sys path = None"
  shows "fopen sys path = None \<and>
         check_file sys path checksums options = Some (0, checksums, []) \<and>
         (\<forall>recurse root rp d_name names cnt.
            d_name \<noteq> ''.'' \<longrightarrow> d_name \<noteq> ''..'' \<longrightarrow>
            compose_path sys root rp d_name = Some path \<longrightarrow> \<not> is_directory sys path \<longrightarrow>
            readdir_loop recurse sys root rp options (d_name # names) cnt checksums =
            readdir_loop recurse sys root rp options names cnt checksums)"
proof -
  have f: "fopen sys path = None" using assms by (simp add: hash_from_file_None)
  have c: "check_file sys path checksums options = Some (0, checksums, [])"
    using assms by (simp add: check_file_def)
  have "readdir_loop recurse sys root rp options (d_name # names) cnt checksums =
        readdir_loop recurse sys root rp options names cnt checksums"
    if "d_name \<noteq> ''.''" "d_name \<noteq> ''..''" "compose_path sys root rp d_name = Some path"
      "\<not> is_directory sys path"
    for recurse root rp d_name names cnt
    using that c by (simp add: add_count_0 split: sum.splits prod.splits)
  with f c show ?thesis by blast
qed

theorem unreadable_file_skipped_witness:
  "let sys = scenario [] (@) zero_padded;
       options = \<lparr>count = False, quiet = False\<rparr>;
       recurse = (\<lambda>p t. check_directory 0 sys p t options);
       checksums = \<lparr>buckets = [[\<lparr>key = ''68656c6c6f0000000000000000000000'', val = Text ''d/y''\<rparr>]], capacity = 1, tsize = 1\<rparr>
   in hash_from_file sys ''d/z'' = None \<and>
      check_file sys ''d/z'' checksums options = Some (0, checksums, []) \<and>
      ''z'' \<noteq> ''.'' \<and> ''z'' \<noteq> ''..'' \<and>
      compose_path sys ''d'' (Some ''/w/d'') ''z'' = Some ''d/z'' \<and> \<not> is_directory sys ''d/z'' \<and>
      readdir_loop recurse sys ''d'' (Some ''/w/d'') options [''z'', ''x''] 0 checksums =
      readdir_loop recurse sys ''d'' (Some ''/w/d'') options [''x''] 0 checksums \<and>
      readdir_loop recurse sys ''d'' (Some ''/w/d'') options [''x''] 0 checksums =
      Inr (1, checksums, [Stdout (''/w/d/x is a duplicate of d/y'' @ [NEWLINE])])"
proof -
  let ?sys = "scenario [] (@) zero_padded"
  let ?options = "\<lparr>count = False, quiet = False\<rparr>"
  let ?recurse = "\<lambda>p t. check_directory 0 ?sys p t ?options"
  let ?checksums = "\<lparr>buckets = [[\<lparr>key = ''68656c6c6f0000000000000000000000'', val = Text ''d/y''\<rparr>]], capacity = 1, tsize = 1\<rparr>"
  have h: "hash_from_file ?sys ''d/z'' = None"
    by (simp add: hash_from_file_def scenario_def)
  have c: "compose_path ?sys ''d'' (Some ''/w/d'') ''z'' = Some ''d/z''"
    by (simp add: scanner_eval hello_hex)
  have d: "\<not> is_directory ?sys ''d/z''" by (simp add: scanner_eval hello_hex)
  have n: "''z'' \<noteq> ''.''" "''z'' \<noteq> ''..''" by simp_all
  note skipped = unreadable_file_skipped [OF h, of ?checksums ?options]
  have 1: "check_file ?sys ''d/z'' ?checksums ?options = Some (0, ?checksums, [])"
    by (rule skipped [THEN conjunct2, THEN conjunct1])
  have 2: "readdir_loop ?recurse ?sys ''d'' (Some ''/w/d'') ?options [''z'', ''x''] 0 ?checksums =
      readdir_loop ?recurse ?sys ''d'' (Some ''/w/d'') ?options [''x''] 0 ?checksums"
    by (rule skipped [THEN conjunct2, THEN conjunct2, rule_format, OF n c d])
  have 3: "readdir_loop ?recurse ?sys ''d'' (Some ''/w/d'') ?options [''x''] 0 ?checksums =
      Inr (1, ?checksums, [Stdout (''/w/d/x is a duplicate of d/y'' @ [NEWLINE])])"
    by (simp add: scanner_eval hello_hex)
  show ?thesis
    unfolding Let_def by (intro conjI h 1 n c d 2 3)
qed

lemma insert_loop_values:
  "insert_loop c k v = Some c' \<Longrightarrow> \<forall>p \<in> set c'. p \<in> set c \<or> val p = v"
  by (induction c arbitrary: c') (auto simp: pair_update_def split: if_splits)

lemma table_insert_values:
  assumes "table_insert t k v = Some t'"
  shows "\<forall>p \<in> set (entries t'). p \<in> set (entries t) \<or> val p = v"
proof
  fix p
  assume "p \<in> set (entries t')"
  then obtain i where i: "i < length (buckets t')" "p \<in> set (buckets t' ! i)"
    by (auto simp: set_entries)
  from assms obtain b where b: "bucket_index t k = Some b"
    by (auto simp: table_insert_def split: option.splits)
  then have lt: "b < length (buckets t)" by (rule bucket_index_less)
  show "p \<in> set (entries t) \<or> val p = v"
  proof (cases "insert_loop (buckets t ! b) k v")
    case None
    then have "buckets t' = (buckets t)[b := \<lparr>key = k, val = v\<rparr> # buckets t ! b]"
      using assms b by (auto simp: table_insert_def pair_create_def)
    then show ?thesis using i lt by (cases "i = b") (auto simp: set_entries)
  next
    case (Some c)
    then have "buckets t' = (buckets t)[b := c]"
      using assms b by (auto simp: table_insert_def)
    moreover have "\<forall>p \<in> set c. p \<in> set (buckets t ! b) \<or> val p = v"
      using Some by (rule insert_loop_values)
    ultimately show ?thesis using i lt by (cases "i = b") (auto simp: set_entries)
  qed
qed

text \<open>
  The table of checksums stays well formed and a table of texts: \<open>check_file\<close> inserts only
  paths, and \<open>table_create\<close> gives an empty table.
\<close>

lemma check_file_table_of_texts:
  assumes "table_wf t" and "table_of_texts t" and "check_file sys path t options = Some (n, t', out)"
  shows "table_wf t' \<and> table_of_texts t'"
proof (cases "t' = t")
  case True
  then show ?thesis using assms by simp
next
  case False
  then obtain hex where ins: "table_insert t hex (Text path) = Some t'"
    using assms(3)
    by (auto simp: check_file_def split: option.splits if_splits Value.splits)
  from table_insert_values [OF ins] assms(2) have "table_of_texts t'"
    by (auto simp: table_of_texts_def)
  then show ?thesis using table_insert_wf [OF assms(1) ins] by simp
qed

lemma table_create_of_texts: "table_of_texts (table_create dc cap)"
  by (simp add: table_of_texts_def table_create_entries)

lemma readdir_loop_table_of_texts:
  assumes rec: "\<And>p t n t' out. table_wf t \<Longrightarrow> table_of_texts t \<Longrightarrow>
                  recurse p t = Inr (n, t', out) \<Longrightarrow> table_wf t' \<and> table_of_texts t'"
  shows "table_wf t \<Longrightarrow> table_of_texts t \<Longrightarrow>
         readdir_loop recurse sys root rp options names cnt t = Inr (c, t', out) \<Longrightarrow>
         table_wf t' \<and> table_of_texts t'"
proof (induction names arbitrary: cnt t c out)
  case Nil
  then show ?case by simp
next
  case (Cons d_name names)
  show ?case
  proof (cases "d_name = ''.'' \<or> d_name = ''..''")
    case True
    then have "readdir_loop recurse sys root rp options names cnt t = Inr (c, t', out)"
      using Cons.prems(3) by auto
    from Cons.IH [OF Cons.prems(1,2) this] show ?thesis .
  next
    case False
    obtain currPath where cp: "compose_path sys root rp d_name = Some currPath"
      using Cons.prems(3) False by (cases "compose_path sys root rp d_name") auto
    let ?step = "if is_directory sys currPath then recurse currPath t
                 else (case check_file sys currPath t options of
                         None \<Rightarrow> Inl Undefined_behaviour | Some r \<Rightarrow> Inr r)"
    obtain n t1 out1 where step: "?step = Inr (n, t1, out1)"
      using Cons.prems(3) False cp by (cases ?step) auto
    obtain c1 out2
      where rest: "readdir_loop recurse sys root rp options names (add_count cnt n) t1 = Inr (c1, t', out2)"
      using Cons.prems(3) False cp step
      by (cases "readdir_loop recurse sys root rp options names (add_count cnt n) t1") auto
    have "table_wf t1 \<and> table_of_texts t1"
    proof (cases "is_directory sys currPath")
      case True
      then show ?thesis using step rec [OF Cons.prems(1,2)] by auto
    next
      case False
      then have "check_file sys currPath t options = Some (n, t1, out1)"
        using step by (auto split: option.splits)
      then show ?thesis using check_file_table_of_texts [OF Cons.prems(1,2)] by blast
    qed
    then show ?thesis using Cons.IH rest by blast
  qed
qed

lemma check_directory_table_of_texts:
  "table_wf t \<Longrightarrow> table_of_texts t \<Longrightarrow>
   check_directory fuel sys root t options = Inr (n, t', out) \<Longrightarrow>
   table_wf t' \<and> table_of_texts t'"
proof (induction fuel arbitrary: root t n t' out)
  case 0
  then show ?case by simp
next
  case (Suc fuel)
  show ?case
  proof (cases "opendir sys root")
    case None
    then show ?thesis using Suc.prems by auto
  next
    case (Some names)
    then obtain c where "readdir_loop (\<lambda>p t. check_directory fuel sys p t options) sys root
        (realpath sys root) options names 0 t = Inr (c, t', out)"
      using Suc.prems(3) by (auto split: sum.splits)
    from readdir_loop_table_of_texts [OF _ Suc.prems(1,2) this] Suc.IH show ?thesis by blast
  qed
qed

text \<open>
  C9. On a well-formed table of checksums, whose values are all texts, the number that
  \<open>check_file\<close> returns (0 or 1) and the table it leaves are the same for all settings
  of the options \<open>count\<close> and \<open>quiet\<close>; the options decide only whether the line that
  reports a duplicate is printed, which happens when the file is a duplicate and neither
  option is set.
\<close>

theorem options_only_decide_report:
  assumes "table_wf checksums" and "table_of_texts checksums"
  shows "\<exists>n t orig. (n = 0 \<or> n = 1) \<and>
           (\<forall>options. check_file sys path checksums options =
              Some (n, t, if n = 1 \<and> \<not> count options \<and> \<not> quiet options
                          then [Stdout (path @ '' is a duplicate of '' @ orig @ [NEWLINE])]
                          else []))"
proof (cases "hash_from_file sys path")
  case None
  then have "\<forall>options. check_file sys path checksums options = Some (0, checksums, [])"
    by (simp add: check_file_def)
  then show ?thesis by (intro exI [of _ 0] exI [of _ checksums]) simp
next
  case (Some hex)
  obtain v where v: "table_search checksums hex = Some v"
    using assms(1) by (simp add: table_search_def bucket_index_wf)
  show ?thesis
  proof (cases v)
    case None
    obtain t where t: "table_insert checksums hex (Text path) = Some t"
      using table_insert_total [OF assms(1)] by blast
    have "\<forall>options. check_file sys path checksums options = Some (0, t, [])"
      using Some v None t by (simp add: check_file_def)
    then show ?thesis by (intro exI [of _ 0] exI [of _ t]) simp
  next
    case (Some found)
    with v assms(2) obtain s where s: "found = Text s" using table_search_text by blast
    have "\<forall>options. check_file sys path checksums options =
        Some (1, checksums, if \<not> count options \<and> \<not> quiet options
                            then [Stdout (path @ '' is a duplicate of '' @ s @ [NEWLINE])] else [])"
      using \<open>hash_from_file sys path = Some hex\<close> v Some s by (auto simp: check_file_def)
    then show ?thesis by (intro exI [of _ 1] exI [of _ checksums] exI [of _ s]) simp
  qed
qed

theorem options_only_decide_report_witness:
  "let sys = scenario [] (@) zero_padded;
       checksums = \<lparr>buckets = [[\<lparr>key = ''68656c6c6f0000000000000000000000'', val = Text ''d/y''\<rparr>]], capacity = 1, tsize = 1\<rparr>
   in table_wf checksums \<and> table_of_texts checksums \<and>
      check_file sys ''d/x'' checksums \<lparr>count = False, quiet = False\<rparr> =
        Some (1, checksums, [Stdout (''d/x is a duplicate of d/y'' @ [NEWLINE])]) \<and>
      check_file sys ''d/x'' checksums \<lparr>count = True, quiet = False\<rparr> = Some (1, checksums, []) \<and>
      check_file sys ''d/x'' checksums \<lparr>count = False, quiet = True\<rparr> = Some (1, checksums, []) \<and>
      check_file sys ''d/x'' checksums \<lparr>count = True, quiet = True\<rparr> = Some (1, checksums, [])"
proof -
  let ?sys = "scenario [] (@) zero_padded"
  let ?checksums = "\<lparr>buckets = [[\<lparr>key = ''68656c6c6f0000000000000000000000'', val = Text ''d/y''\<rparr>]], capacity = 1, tsize = 1\<rparr>"
  have wf: "table_wf ?checksums" by (simp add: table_wf_def)
  have tx: "table_of_texts ?checksums" by (simp add: table_of_texts_def entries_def)
  from options_only_decide_report [OF wf tx, of ?sys "''d/x''"] obtain n t orig
    where r: "\<And>options. check_file ?sys ''d/x'' ?checksums options =
              Some (n, t, if n = 1 \<and> \<not> count options \<and> \<not> quiet options
                          then [Stdout (''d/x'' @ '' is a duplicate of '' @ orig @ [NEWLINE])]
                          else [])"
    by blast
  have ff: "check_file ?sys ''d/x'' ?checksums \<lparr>count = False, quiet = False\<rparr> =
        Some (1, ?checksums, [Stdout (''d/x is a duplicate of d/y'' @ [NEWLINE])])"
    by (simp add: scanner_eval hello_hex)
  with r [of "\<lparr>count = False, quiet = False\<rparr>"] have nt: "n = 1" "t = ?checksums" by simp_all
  have tf: "check_file ?sys ''d/x'' ?checksums \<lparr>count = True, quiet = False\<rparr> = Some (1, ?checksums, [])"
    using r [of "\<lparr>count = True, quiet = False\<rparr>"] nt by simp
  have ft: "check_file ?sys ''d/x'' ?checksums \<lparr>count = False, quiet = True\<rparr> = Some (1, ?checksums, [])"
    using r [of "\<lparr>count = False, quiet = True\<rparr>"] nt by simp
  have tt: "check_file ?sys ''d/x'' ?checksums \<lparr>count = True, quiet = True\<rparr> = Some (1, ?checksums, [])"
    using r [of "\<lparr>count = True, quiet = True\<rparr>"] nt by simp
  show ?thesis
    unfolding Let_def by (intro conjI wf tx ff tf ft tt)
qed

section \<open>The paths that check_directory composes\<close>

text \<open>
  The loop keeps \<open>root/d_name\<close> when the bare name is not a directory as seen from the
  working directory, and replaces it by \<open>path/d_name\<close> when it is.
\<close>

lemma compose_path_root:
  assumes "\<not> is_directory sys d_name" and "length (root @ ''/'' @ d_name) < PATH_MAX sys"
  shows "compose_path sys root path d_name = Some (root @ ''/'' @ d_name)"
  using assms by (simp add: compose_path_def sprintf_path_def)

lemma compose_path_realpath:
  assumes "is_directory sys d_name" and "length (root @ ''/'' @ d_name) < PATH_MAX sys"
    and "length (rp @ ''/'' @ d_name) < PATH_MAX sys"
  shows "compose_path sys root (Some rp) d_name = Some (rp @ ''/'' @ d_name)"
  using assms by (simp add: compose_path_def sprintf_path_def)

text \<open>
  C1. The scanner is started in \<open>/w\<close> on the directory \<open>d\<close> with an empty table of one
  bucket and no option. For the entry \<open>x\<close> of \<open>d\<close> the loop does not keep the path
  \<open>d/x\<close>, the parent path joined with the name: the working directory holds a directory
  that is also called \<open>x\<close>, so \<open>is_directory(curr->d_name)\<close> holds and the path becomes
  \<open>/w/d/x\<close>, built from \<open>realpath(root)\<close>. The file is classified under that path, and
  the report names \<open>/w/d/x\<close> where the other entries of \<open>d\<close> are named \<open>d/y\<close>.
\<close>

theorem check_directory_bare_name:
  "compose_path (scenario init update final) ''d'' (realpath (scenario init update final) ''d'') ''x'' =
     Some ''/w/d/x'' \<and>
   ''/w/d/x'' \<noteq> ''d'' @ ''/'' @ ''x'' \<and>
   check_directory 1 (scenario init update final) ''d'' (table_create 1024 1)
     \<lparr>count = False, quiet = False\<rparr> =
   Inr (1,
        \<lparr>buckets = [[\<lparr>key = concat (map sprintf_02x (take MD5_DIGEST_LENGTH (final (update init hello)))),
                      val = Text ''d/y''\<rparr>]],
         capacity = 1, tsize = 1\<rparr>,
        [Stdout (''/w/d/x is a duplicate of d/y'' @ [NEWLINE])])"
  by (simp add: scenario_def compose_path_def sprintf_path_def is_directory_def
     check_file_def hash_from_file_def fread_hello table_search_def table_insert_def bucket_index_def
     table_create_def pair_create_def add_count_def Let_def)

end
